theory Spec2Isabelle
  imports Main
begin

section \<open>The 3ML block parser (\<^verbatim>\<open>block_parser.py\<close>)\<close>

text \<open>
  The parser builds a mutable tree of node objects and keeps a stack of references to the
  currently open nodes.  The same object is reachable both from its parent's child list
  and from the stack, and it is mutated through the stack.  The model therefore keeps an
  explicit store: a heap of node objects indexed by address, and a stack of addresses.
\<close>

subsection \<open>Strings\<close>

text \<open>
  A Python \<^verbatim>\<open>str\<close> is modelled as a \<^typ>\<open>string\<close>; a \<^typ>\<open>char\<close> stands for a code point
  below 256.  The classifications below are Python's \<^verbatim>\<open>str.isspace\<close>, the line boundaries
  of \<^verbatim>\<open>str.splitlines\<close> and \<^verbatim>\<open>str.isdigit\<close>, restricted to that range.
\<close>

definition isspace :: "char \<Rightarrow> bool" where
  "isspace c = (of_char c \<in> {9, 10, 11, 12, 13, 28, 29, 30, 31, 32, 133, 160 :: nat})"

definition is_linebreak :: "char \<Rightarrow> bool" where
  "is_linebreak c = (of_char c \<in> {10, 11, 12, 13, 28, 29, 30, 133 :: nat})"

definition is_ascii_digit :: "char \<Rightarrow> bool" where
  "is_ascii_digit c = (48 \<le> (of_char c :: nat) \<and> (of_char c :: nat) \<le> 57)"

text \<open>\<^verbatim>\<open>isdigit\<close> also holds of the superscript digits U+00B2, U+00B3 and U+00B9.\<close>

definition isdigit_char :: "char \<Rightarrow> bool" where
  "isdigit_char c = (is_ascii_digit c \<or> of_char c \<in> {178, 179, 185 :: nat})"

text \<open>\<^verbatim>\<open>s.isdigit()\<close>: every character is a digit and there is at least one.\<close>

definition isdigit :: "string \<Rightarrow> bool" where
  "isdigit s = (s \<noteq> [] \<and> list_all isdigit_char s)"

text \<open>\<^verbatim>\<open>s.rstrip()\<close> and \<^verbatim>\<open>s.strip()\<close>.\<close>

definition rstrip :: "string \<Rightarrow> string" where
  "rstrip s = rev (dropWhile isspace (rev s))"

definition strip :: "string \<Rightarrow> string" where
  "strip s = dropWhile isspace (rstrip s)"

text \<open>\<^verbatim>\<open>s.startswith(p)\<close>.\<close>

definition startswith :: "string \<Rightarrow> string \<Rightarrow> bool" where
  "startswith s p = (take (length p) s = p)"

text \<open>
  \<^verbatim>\<open>s.splitlines()\<close>: the text is cut at every line boundary, \<^verbatim>\<open>\r\n\<close> counting as
  one; a boundary at the very end opens no further line.  The first argument is the line
  read so far, reversed.
\<close>

fun splitlines_from :: "string \<Rightarrow> string \<Rightarrow> string list" where
  "splitlines_from cur [] = (if cur = [] then [] else [rev cur])"
| "splitlines_from cur (c # cs) =
     (if is_linebreak c then
        (case cs of
           d # ds \<Rightarrow>
             if c = CHR 0x0D \<and> d = CHR 0x0A then rev cur # splitlines_from [] ds
             else rev cur # splitlines_from [] cs
         | [] \<Rightarrow> rev cur # splitlines_from [] cs)
      else splitlines_from (c # cur) cs)"

definition splitlines :: "string \<Rightarrow> string list" where
  "splitlines s = splitlines_from [] s"

text \<open>
  \<^verbatim>\<open>s.split(maxsplit=1)\<close>: leading whitespace is skipped; the first word runs to the next
  whitespace; the whitespace after it is skipped and what is left, if anything, is the
  second part.
\<close>

definition split1 :: "string \<Rightarrow> string list" where
  "split1 s =
     (let s1 = dropWhile isspace s in
      if s1 = [] then []
      else
        let w = takeWhile (\<lambda>c. \<not> isspace c) s1;
            r = dropWhile isspace (dropWhile (\<lambda>c. \<not> isspace c) s1)
        in if r = [] then [w] else [w, r])"

text \<open>\<^verbatim>\<open>str(n)\<close> for a line number, as the f-strings of the error messages format it.\<close>

fun str_nat :: "nat \<Rightarrow> string" where
  "str_nat n =
     (if n < 10 then [''0123456789'' ! n]
      else str_nat (n div 10) @ [''0123456789'' ! (n mod 10)])"

declare str_nat.simps [simp del]

text \<open>
  \<^verbatim>\<open>int(s)\<close> on a string that passed \<^verbatim>\<open>isdigit\<close>: the decimal value when every character
  is an ASCII digit, and \<^verbatim>\<open>ValueError\<close> on a superscript digit.  (Signs, underscores and
  surrounding whitespace, which \<^verbatim>\<open>int\<close> accepts too, cannot pass \<^verbatim>\<open>isdigit\<close>.)  The
  integers are Python's, without bound, but \<^verbatim>\<open>int\<close> converts no string of more digits than
  \<^verbatim>\<open>sys.get_int_max_str_digits()\<close>, 4300 unless the interpreter is set otherwise: on a
  longer one it raises \<^verbatim>\<open>ValueError\<close> as well.
\<close>

datatype error = ParseError string | ValueError | IndexError

definition decimal :: "string \<Rightarrow> int" where
  "decimal s = foldl (\<lambda>acc c. 10 * acc + (int (of_char c) - 48)) 0 s"

definition max_str_digits :: nat where
  "max_str_digits = 4300"

definition py_int :: "string \<Rightarrow> error + int" where
  "py_int s =
     (if s \<noteq> [] \<and> list_all is_ascii_digit s \<and> length s \<le> max_str_digits
      then Inr (decimal s) else Inl ValueError)"

subsection \<open>The document model\<close>

text \<open>
  The dataclasses.  Every node has the field \<^verbatim>\<open>children\<close> of the base class and the
  fields of its own class; a child is a reference, that is an address of the heap.  The
  field \<^verbatim>\<open>text\<close> of a Paragraph is \<open>text'\<close> here.  The metadata are a map: two dictionaries
  are equal in Python when they hold the same keys with the same values.
\<close>

type_synonym addr = nat

datatype variant =
    is_Document: Document (metadata: "string \<rightharpoonup> string")
  | is_Section: Section (level: int) (title: string)
  | is_Paragraph: Paragraph (text': string)
  | is_ListBlock: ListBlock (items: "string list")
  | is_Definition: Definition (title: string)
  | is_Theorem: Theorem (title: string)

datatype node = Node (children: "addr list") (variant: variant)

type_synonym heap = "node list"

text \<open>The parser's state: the objects allocated so far and the stack of open nodes,
  bottom first as in the Python list (\<^verbatim>\<open>stack[-1]\<close> is \<^term>\<open>last\<close>).  A new object gets
  the address \<^term>\<open>length h\<close>.  A reference of the program always points to an object; the
  model reads \<open>h ! a\<close> at the addresses of the stack and of the child lists, and these are
  allocated in every state that the parser reaches (\<open>stack_ok\<close>, \<open>children_above\<close> below).\<close>

record pstate =
  heap :: heap
  stack :: "addr list"

text \<open>\<^verbatim>\<open>parent.children.append(child)\<close> and \<^verbatim>\<open>lb.items.append(item)\<close>,
  \<^verbatim>\<open>doc.metadata[key] = value\<close> on the object at an address.\<close>

definition append_child :: "heap \<Rightarrow> addr \<Rightarrow> addr \<Rightarrow> heap" where
  "append_child h p c = h[p := Node (children (h ! p) @ [c]) (variant (h ! p))]"

definition append_item :: "heap \<Rightarrow> addr \<Rightarrow> string \<Rightarrow> heap" where
  "append_item h a item =
     h[a := Node (children (h ! a)) (ListBlock (items (variant (h ! a)) @ [item]))]"

definition set_metadata :: "heap \<Rightarrow> addr \<Rightarrow> string \<Rightarrow> string \<Rightarrow> heap" where
  "set_metadata h a k v =
     h[a := Node (children (h ! a)) (Document ((metadata (variant (h ! a)))(k \<mapsto> v)))]"

subsection \<open>Command handling\<close>

text \<open>
  The three statements every opener ends with:
  \<^verbatim>\<open>node = V(...); stack[-1].children.append(node); stack.append(node)\<close>.
  The new object gets the next free address.
\<close>

definition open_node :: "variant \<Rightarrow> pstate \<Rightarrow> pstate" where
  "open_node v st =
     (let a = length (heap st);
          h1 = heap st @ [Node [] v];
          h2 = append_child h1 (last (stack st)) a
      in \<lparr>heap = h2, stack = stack st @ [a]\<rparr>)"

text \<open>The loop \<^verbatim>\<open>while len(stack) > 1 and isinstance(stack[-1], Section) and
  stack[-1].level >= level: stack.pop()\<close>.\<close>

function pop_sections :: "heap \<Rightarrow> int \<Rightarrow> addr list \<Rightarrow> addr list" where
  "pop_sections h lv stk =
     (if length stk > 1 \<and> is_Section (variant (h ! last stk))
           \<and> level (variant (h ! last stk)) \<ge> lv
      then pop_sections h lv (butlast stk)
      else stk)"
  by pat_completeness auto
termination
  by (relation "measure (\<lambda>(h, lv, stk). length stk)") auto

declare pop_sections.simps [simp del]

text \<open>The command word and the argument of a directive line:
  \<^verbatim>\<open>parts = line.split(maxsplit=1); cmd = parts[0][1:]; arg = parts[1] if len(parts) > 1 else ""\<close>.\<close>

definition cmd_of :: "string list \<Rightarrow> string" where
  "cmd_of parts = drop 1 (parts ! 0)"

definition arg_of :: "string list \<Rightarrow> string" where
  "arg_of parts = (if length parts > 1 then parts ! 1 else [])"

definition line_msg :: "nat \<Rightarrow> string \<Rightarrow> error" where
  "line_msg lineno msg = ParseError (''Line '' @ str_nat lineno @ '': '' @ msg)"

definition handle_command :: "string \<Rightarrow> nat \<Rightarrow> pstate \<Rightarrow> error + pstate" where
  "handle_command line lineno st =
     (let parts = split1 line in
      if parts = [] then Inl IndexError
      else
        let cmd = cmd_of parts; arg = arg_of parts in
        if stack st = [] then Inl IndexError
        else
          let current = last (stack st) in
          if cmd = ''end'' then
            (if length (stack st) = 1 then Inl (line_msg lineno ''unexpected #end'')
             else if is_Section (variant (heap st ! last (stack st)))
               then Inl (line_msg lineno ''sections do not use #end'')
             else Inr (st\<lparr>stack := butlast (stack st)\<rparr>))
          else if startswith cmd ''s'' \<and> isdigit (drop 1 cmd) then
            (case py_int (drop 1 cmd) of
               Inl e \<Rightarrow> Inl e
             | Inr lv \<Rightarrow>
                 Inr (open_node (Section lv arg)
                        (st\<lparr>stack := pop_sections (heap st) lv (stack st)\<rparr>)))
          else if cmd = ''list'' then Inr (open_node (ListBlock []) st)
          else if cmd = ''def'' then Inr (open_node (Definition arg) st)
          else if cmd = ''thm'' then Inr (open_node (Theorem arg) st)
          else if is_Document (variant (heap st ! current))
            then Inr (st\<lparr>heap := set_metadata (heap st) current cmd arg\<rparr>)
          else Inl (line_msg lineno (''unknown command #'' @ cmd)))"

subsection \<open>Text handling\<close>

definition handle_text :: "string \<Rightarrow> nat \<Rightarrow> pstate \<Rightarrow> error + pstate" where
  "handle_text line lineno st =
     (if strip line = [] then Inr st
      else if stack st = [] then Inl IndexError
      else
        let current = last (stack st) in
        if is_ListBlock (variant (heap st ! current)) then
          (if \<not> startswith line ''- ''
             then Inl (line_msg lineno
                        (''list items must start with '' @ [CHR 0x27] @ ''- '' @ [CHR 0x27]))
           else Inr (st\<lparr>heap := append_item (heap st) current (drop 2 line)\<rparr>))
        else
          Inr (st\<lparr>heap := append_child (heap st @ [Node [] (Paragraph line)]) current
                              (length (heap st))\<rparr>))"

subsection \<open>The block parser\<close>

text \<open>One iteration of \<^verbatim>\<open>for lineno, line in enumerate(lines, 1)\<close>.\<close>

definition parse_line :: "string \<Rightarrow> nat \<Rightarrow> pstate \<Rightarrow> error + pstate" where
  "parse_line raw lineno st =
     (let line = rstrip raw in
      if startswith line ''#'' then handle_command line lineno st
      else handle_text line lineno st)"

text \<open>The loop; an exception leaves it at once.\<close>

fun parse_lines :: "nat \<Rightarrow> string list \<Rightarrow> pstate \<Rightarrow> error + pstate" where
  "parse_lines lineno [] st = Inr st"
| "parse_lines lineno (raw # rest) st =
     (case parse_line raw lineno st of
        Inl e \<Rightarrow> Inl e
      | Inr st' \<Rightarrow> parse_lines (Suc lineno) rest st')"

text \<open>\<^verbatim>\<open>isinstance(node, (Definition, Theorem, ListBlock))\<close>.\<close>

definition is_explicit :: "variant \<Rightarrow> bool" where
  "is_explicit v = (is_Definition v \<or> is_Theorem v \<or> is_ListBlock v)"

text \<open>
  \<^verbatim>\<open>doc = Document(); stack = [doc]\<close>: the Document is a new object.  A call of
  \<^verbatim>\<open>parse_blocks\<close> finds the objects \<open>h0\<close> that were allocated before it, and the Document
  gets the next free address.
\<close>

definition init_state_in :: "heap \<Rightarrow> pstate" where
  "init_state_in h0 = \<lparr>heap = h0 @ [Node [] (Document Map.empty)], stack = [length h0]\<rparr>"

text \<open>The whole of \<^verbatim>\<open>parse_blocks\<close>: the loop, the check at the end of the input, then
  \<^verbatim>\<open>return doc\<close>, the reference, with the heap it points into.\<close>

definition parse_blocks_in :: "heap \<Rightarrow> string \<Rightarrow> error + heap \<times> addr" where
  "parse_blocks_in h0 source =
     (case parse_lines 1 (splitlines source) (init_state_in h0) of
        Inl e \<Rightarrow> Inl e
      | Inr st \<Rightarrow>
          if list_ex (\<lambda>a. is_explicit (variant (heap st ! a))) (tl (stack st))
            then Inl (ParseError ''Unclosed block at end of file'')
          else Inr (heap st, length h0))"

text \<open>A call on its own, with no object allocated before it: the Document is at address 0.
  \<^term>\<open>run_lines\<close> is the state after the loop of such a call.\<close>

definition doc :: addr where
  "doc = 0"

definition init_state :: pstate where
  "init_state = init_state_in []"

definition run_lines :: "string \<Rightarrow> error + pstate" where
  "run_lines source = parse_lines 1 (splitlines source) init_state"

definition parse_blocks :: "string \<Rightarrow> error + heap \<times> addr" where
  "parse_blocks source = parse_blocks_in [] source"

subsection \<open>The tree behind a reference\<close>

text \<open>
  What the caller sees when it follows the references from a node: the fields of the node
  and the trees of its children.  The parser gives every child a greater address than its
  parent, and the recursion follows the children with a greater, allocated address (all
  of them, in a heap the parser built: lemma \<open>tree_of_parsed\<close>).
\<close>

datatype tree = Tree (subtrees: "tree list") (label: variant)

function tree_of :: "heap \<Rightarrow> addr \<Rightarrow> tree" where
  "tree_of h a =
     Tree (map (tree_of h) (filter (\<lambda>c. a < c \<and> c < length h) (children (h ! a))))
          (variant (h ! a))"
  by pat_completeness auto
termination
  by (relation "measure (\<lambda>(h, a). length h - a)") auto

declare tree_of.simps [simp del]

text \<open>The result of a call as the caller sees it: the error, or the tree of the Document.\<close>

definition result_tree :: "error + heap \<times> addr \<Rightarrow> error + tree" where
  "result_tree r = (case r of Inl e \<Rightarrow> Inl e | Inr (h, a) \<Rightarrow> Inr (tree_of h a))"

text \<open>The same objects at other addresses: behind the objects \<open>h0\<close>, every reference moved
  by their number.\<close>

definition shift :: "nat \<Rightarrow> node \<Rightarrow> node" where
  "shift n nd = Node (map (\<lambda>c. c + n) (children nd)) (variant nd)"

definition relocate :: "heap \<Rightarrow> pstate \<Rightarrow> pstate" where
  "relocate h0 st =
     \<lparr>heap = h0 @ map (shift (length h0)) (heap st),
      stack = map (\<lambda>a. a + length h0) (stack st)\<rparr>"

subsection \<open>Invariants of the parser's state\<close>

text \<open>What never changes in an object once it exists: its class and, apart from the
  metadata of a Document and the items of a ListBlock, its fields.\<close>

definition tag :: "variant \<Rightarrow> variant" where
  "tag v = (case v of Document m \<Rightarrow> Document Map.empty | ListBlock xs \<Rightarrow> ListBlock [] | _ \<Rightarrow> v)"

text \<open>The stack is not empty, the Document is its bottom element and occurs nowhere else
  in it, its addresses are allocated, and the Document is the only one of the heap.\<close>

definition stack_ok :: "pstate \<Rightarrow> bool" where
  "stack_ok st \<longleftrightarrow>
     stack st \<noteq> [] \<and> hd (stack st) = doc \<and> doc \<notin> set (tl (stack st)) \<and>
     (\<forall>a\<in>set (stack st). a < length (heap st)) \<and>
     (\<forall>a<length (heap st). is_Document (variant (heap st ! a)) \<longleftrightarrow> a = doc)"

text \<open>No Section has a negative level; no child of a ListBlock is a Paragraph.\<close>

definition levels_nonneg :: "heap \<Rightarrow> bool" where
  "levels_nonneg h \<longleftrightarrow>
     (\<forall>a<length h. is_Section (variant (h ! a)) \<longrightarrow> 0 \<le> level (variant (h ! a)))"

definition no_para_in_list :: "heap \<Rightarrow> bool" where
  "no_para_in_list h \<longleftrightarrow>
     (\<forall>a<length h. is_ListBlock (variant (h ! a)) \<longrightarrow>
        (\<forall>c\<in>set (children (h ! a)). c < length h \<and> \<not> is_Paragraph (variant (h ! c))))"

text \<open>Two Sections that are neighbours in the stack have increasing levels.\<close>

definition sections_ordered :: "heap \<Rightarrow> addr list \<Rightarrow> bool" where
  "sections_ordered h stk \<longleftrightarrow>
     (\<forall>i. Suc i < length stk \<longrightarrow>
        is_Section (variant (h ! (stk ! i))) \<longrightarrow> is_Section (variant (h ! (stk ! Suc i))) \<longrightarrow>
        level (variant (h ! (stk ! i))) < level (variant (h ! (stk ! Suc i))))"

text \<open>The ordering of the levels of the open Sections: between any two Sections of the
  stack, and between two Sections of the stack with nothing but Sections between them.\<close>

definition strictly_level_ordered :: "heap \<Rightarrow> addr list \<Rightarrow> bool" where
  "strictly_level_ordered h stk \<longleftrightarrow>
     (\<forall>i<length stk. \<forall>j<i.
        is_Section (variant (h ! (stk ! i))) \<and> is_Section (variant (h ! (stk ! j))) \<longrightarrow>
        level (variant (h ! (stk ! j))) < level (variant (h ! (stk ! i))))"

definition level_ordered_runs :: "heap \<Rightarrow> addr list \<Rightarrow> bool" where
  "level_ordered_runs h stk \<longleftrightarrow>
     (\<forall>i<length stk. \<forall>j<i.
        (\<forall>m. j \<le> m \<and> m \<le> i \<longrightarrow> is_Section (variant (h ! (stk ! m)))) \<longrightarrow>
        level (variant (h ! (stk ! j))) < level (variant (h ! (stk ! i))))"

text \<open>An error carries the line number \<open>n\<close>: it is a \<^verbatim>\<open>ParseError\<close> whose message starts
  with \<^verbatim>\<open>Line n: \<close>, as the f-strings of the handlers write it.\<close>

definition carries_line :: "error \<Rightarrow> nat \<Rightarrow> bool" where
  "carries_line e n =
     (case e of ParseError m \<Rightarrow> startswith m (''Line '' @ str_nat n @ '': '') | _ \<Rightarrow> False)"

text \<open>Every child has a greater address than its parent, and is allocated.\<close>

definition children_above :: "heap \<Rightarrow> bool" where
  "children_above h \<longleftrightarrow>
     (\<forall>a<length h. \<forall>c\<in>set (children (h ! a)). a < c \<and> c < length h)"

section \<open>Properties\<close>

subsection \<open>Evaluation and the cases of one step\<close>

lemma init_state_unfold:
  "init_state = \<lparr>heap = [Node [] (Document Map.empty)], stack = [doc]\<rparr>"
  by (simp add: init_state_def init_state_in_def doc_def)

lemma parse_blocks_unfold:
  "parse_blocks source =
     (case run_lines source of
        Inl e \<Rightarrow> Inl e
      | Inr st \<Rightarrow>
          if list_ex (\<lambda>a. is_explicit (variant (heap st ! a))) (tl (stack st))
            then Inl (ParseError ''Unclosed block at end of file'')
          else Inr (heap st, doc))"
  unfolding parse_blocks_def parse_blocks_in_def run_lines_def init_state_def doc_def list.size
  by (rule refl)

lemmas eval_defs = run_lines_def parse_blocks_unfold splitlines_def is_linebreak_def parse_line_def rstrip_def strip_def
  isspace_def startswith_def handle_command_def handle_text_def split1_def cmd_of_def arg_of_def
  init_state_unfold doc_def open_node_def append_child_def append_item_def set_metadata_def line_msg_def
  isdigit_def isdigit_char_def is_ascii_digit_def py_int_def max_str_digits_def decimal_def is_explicit_def
  pop_sections.simps str_nat.simps

lemma split1_directive: "startswith line ''#'' \<Longrightarrow> split1 line \<noteq> []"
  by (cases line) (auto simp: startswith_def split1_def Let_def isspace_def)

lemma decimal_nonneg_aux: "list_all is_ascii_digit s \<Longrightarrow> 0 \<le> acc \<Longrightarrow> 0 \<le> foldl (\<lambda>acc c. 10 * acc + (int (of_char c) - 48)) acc s"
  by (induction s arbitrary: acc) (auto simp: is_ascii_digit_def)

lemma decimal_nonneg: "list_all is_ascii_digit s \<Longrightarrow> 0 \<le> decimal s"
  unfolding decimal_def by (rule decimal_nonneg_aux) simp_all

lemma py_int_Inr: "py_int s = Inr lv \<Longrightarrow> 0 \<le> lv"
  by (auto simp: py_int_def decimal_nonneg split: if_splits)

lemma parse_line_cases [consumes 1, case_names skip pop sect opener meta item para]:
  assumes "parse_line raw n st = Inr st'"
  obtains
    "st' = st"
  | "length (stack st) > 1" "\<not> is_Section (variant (heap st ! last (stack st)))"
      "st' = st\<lparr>stack := butlast (stack st)\<rparr>"
  | lv ttl where "0 \<le> lv" "stack st \<noteq> []"
      "st' = open_node (Section lv ttl) (st\<lparr>stack := pop_sections (heap st) lv (stack st)\<rparr>)"
  | v where "stack st \<noteq> []" "v = ListBlock [] \<or> is_Definition v \<or> is_Theorem v"
      "st' = open_node v st"
  | k v where "stack st \<noteq> []" "is_Document (variant (heap st ! last (stack st)))"
      "st' = st\<lparr>heap := set_metadata (heap st) (last (stack st)) k v\<rparr>"
  | s where "stack st \<noteq> []" "is_ListBlock (variant (heap st ! last (stack st)))"
      "st' = st\<lparr>heap := append_item (heap st) (last (stack st)) s\<rparr>"
  | s where "stack st \<noteq> []" "\<not> is_ListBlock (variant (heap st ! last (stack st)))"
      "st' = st\<lparr>heap := append_child (heap st @ [Node [] (Paragraph s)]) (last (stack st))
                            (length (heap st))\<rparr>"
proof (cases "startswith (rstrip raw) ''#''")
  case True
  define cmd where "cmd = cmd_of (split1 (rstrip raw))"
  define arg where "arg = arg_of (split1 (rstrip raw))"
  from True assms have hc: "handle_command (rstrip raw) n st = Inr st'"
    by (simp add: parse_line_def)
  have ne: "stack st \<noteq> []"
    using hc unfolding handle_command_def Let_def by (auto split: if_splits)
  have parts: "split1 (rstrip raw) \<noteq> []"
    using hc unfolding handle_command_def Let_def by (auto split: if_splits)
  note hc' = hc [unfolded handle_command_def Let_def, folded cmd_def arg_def]
  consider (e) "cmd = ''end''"
    | (s) "cmd \<noteq> ''end''" "startswith cmd ''s'' \<and> isdigit (drop 1 cmd)"
    | (l) "cmd \<noteq> ''end''" "\<not> (startswith cmd ''s'' \<and> isdigit (drop 1 cmd))" "cmd = ''list''"
    | (d) "cmd \<noteq> ''end''" "\<not> (startswith cmd ''s'' \<and> isdigit (drop 1 cmd))" "cmd \<noteq> ''list''"
          "cmd = ''def''"
    | (t) "cmd \<noteq> ''end''" "\<not> (startswith cmd ''s'' \<and> isdigit (drop 1 cmd))" "cmd \<noteq> ''list''"
          "cmd \<noteq> ''def''" "cmd = ''thm''"
    | (m) "cmd \<noteq> ''end''" "\<not> (startswith cmd ''s'' \<and> isdigit (drop 1 cmd))" "cmd \<noteq> ''list''"
          "cmd \<noteq> ''def''" "cmd \<noteq> ''thm''"
    by blast
  then show ?thesis
  proof cases
    case e
    with hc' parts ne have "length (stack st) \<noteq> 1"
      "\<not> is_Section (variant (heap st ! last (stack st)))"
      "st' = st\<lparr>stack := butlast (stack st)\<rparr>"
      by (simp_all split: if_splits)
    moreover from this ne have "length (stack st) > 1"
      by (cases "stack st") auto
    ultimately show ?thesis by (rule_tac that(2))
  next
    case s
    with hc' parts ne obtain lv where "py_int (drop 1 cmd) = Inr lv"
      "st' = open_node (Section lv arg) (st\<lparr>stack := pop_sections (heap st) lv (stack st)\<rparr>)"
      by (auto split: sum.splits)
    with ne show ?thesis by (rule_tac that(3)) (auto dest: py_int_Inr)
  next
    case l
    with hc' parts ne have "st' = open_node (ListBlock []) st" by (auto split: if_splits)
    with ne show ?thesis by (rule_tac that(4)) auto
  next
    case d
    with hc' parts ne have "st' = open_node (Definition arg) st" by (auto split: if_splits)
    with ne show ?thesis by (rule_tac that(4)) auto
  next
    case t
    with hc' parts ne have "st' = open_node (Theorem arg) st" by (auto split: if_splits)
    with ne show ?thesis by (rule_tac that(4)) auto
  next
    case m
    with hc' parts ne have "is_Document (variant (heap st ! last (stack st)))"
      "st' = st\<lparr>heap := set_metadata (heap st) (last (stack st)) cmd arg\<rparr>"
      by (auto split: if_splits)
    with ne show ?thesis by (rule_tac that(5))
  qed
next
  case False
  with assms have ht: "handle_text (rstrip raw) n st = Inr st'"
    by (simp add: parse_line_def)
  show ?thesis
  proof (cases "strip (rstrip raw) = []")
    case True
    with ht have "st' = st" by (simp add: handle_text_def)
    then show ?thesis by (rule that(1))
  next
    case blank: False
    with ht have ne: "stack st \<noteq> []"
      by (auto simp: handle_text_def split: if_splits)
    show ?thesis
    proof (cases "is_ListBlock (variant (heap st ! last (stack st)))")
      case True
      with ht blank ne
      have "st' = st\<lparr>heap := append_item (heap st) (last (stack st)) (drop 2 (rstrip raw))\<rparr>"
        by (simp add: handle_text_def Let_def split: if_splits)
      with ne True show ?thesis by (rule_tac that(6))
    next
      case False
      with ht blank ne
      have "st' = st\<lparr>heap := append_child (heap st @ [Node [] (Paragraph (rstrip raw))])
                                 (last (stack st)) (length (heap st))\<rparr>"
        by (simp add: handle_text_def Let_def)
      with ne False show ?thesis by (rule_tac that(7))
    qed
  qed
qed


subsection \<open>Heap updates\<close>

lemma tag_discs:
  "is_Document (tag v) = is_Document v" "is_Section (tag v) = is_Section v"
  "is_Paragraph (tag v) = is_Paragraph v" "is_ListBlock (tag v) = is_ListBlock v"
  "is_Definition (tag v) = is_Definition v" "is_Theorem (tag v) = is_Theorem v"
  by (simp_all add: tag_def split: variant.splits)

lemma tag_ListBlock: "is_ListBlock v \<Longrightarrow> tag v = ListBlock []"
  by (cases v) (simp_all add: tag_def)

lemma tag_Document: "is_Document v \<Longrightarrow> tag v = Document Map.empty"
  by (cases v) (simp_all add: tag_def)

lemma tag_Section: "is_Section v \<Longrightarrow> tag v = v"
  by (cases v) (simp_all add: tag_def)

lemma tag_eqD:
  assumes "tag v = tag w"
  shows "is_Document v = is_Document w" "is_Section v = is_Section w"
    "is_Paragraph v = is_Paragraph w" "is_ListBlock v = is_ListBlock w"
    "is_Definition v = is_Definition w" "is_Theorem v = is_Theorem w"
proof -
  have "is_Document (tag v) = is_Document (tag w)" "is_Section (tag v) = is_Section (tag w)"
    "is_Paragraph (tag v) = is_Paragraph (tag w)" "is_ListBlock (tag v) = is_ListBlock (tag w)"
    "is_Definition (tag v) = is_Definition (tag w)" "is_Theorem (tag v) = is_Theorem (tag w)"
    by (simp_all only: assms)
  then show "is_Document v = is_Document w" "is_Section v = is_Section w"
    "is_Paragraph v = is_Paragraph w" "is_ListBlock v = is_ListBlock w"
    "is_Definition v = is_Definition w" "is_Theorem v = is_Theorem w"
    by (simp_all only: tag_discs)
qed

lemma tag_eq_level:
  assumes "tag v = tag w" "is_Section v"
  shows "level v = level w"
proof -
  from assms(2) have sw: "is_Section w" by (simp only: tag_eqD(2) [OF assms(1)])
  have "v = tag v" using assms(2) by (rule tag_Section [symmetric])
  also have "\<dots> = tag w" by (rule assms(1))
  also have "\<dots> = w" using sw by (rule tag_Section)
  finally show ?thesis by (rule arg_cong)
qed

lemma nth_list_update_cases:
  "(h[p := x]) ! a = (if p = a \<and> a < length h then x else h ! a)"
  by (cases "p = a"; cases "a < length h") (simp_all add: list_update_beyond)

lemma length_append_child [simp]: "length (append_child h p c) = length h"
  by (simp add: append_child_def)

lemma length_append_item [simp]: "length (append_item h p s) = length h"
  by (simp add: append_item_def)

lemma length_set_metadata [simp]: "length (set_metadata h p k v) = length h"
  by (simp add: set_metadata_def)

lemma variant_append_child [simp]:
  "variant (append_child h p c ! a) = variant (h ! a)"
  by (simp add: append_child_def nth_list_update_cases)

lemma children_append_child:
  "a < length h \<Longrightarrow>
   children (append_child h p c ! a) = (if a = p then children (h ! a) @ [c] else children (h ! a))"
  by (auto simp add: append_child_def nth_list_update_cases)

lemma tag_append_item:
  "is_ListBlock (variant (h ! p)) \<Longrightarrow> tag (variant (append_item h p s ! a)) = tag (variant (h ! a))"
  by (auto simp add: append_item_def nth_list_update_cases tag_ListBlock)

lemma children_append_item [simp]: "children (append_item h p s ! a) = children (h ! a)"
  by (simp add: append_item_def nth_list_update_cases)

lemma tag_set_metadata:
  "is_Document (variant (h ! p)) \<Longrightarrow> tag (variant (set_metadata h p k v ! a)) = tag (variant (h ! a))"
  by (auto simp add: set_metadata_def nth_list_update_cases tag_Document)

lemma children_set_metadata [simp]: "children (set_metadata h p k v ! a) = children (h ! a)"
  by (simp add: set_metadata_def nth_list_update_cases)

lemma heap_open_node:
  "heap (open_node v st) =
     append_child (heap st @ [Node [] v]) (last (stack st)) (length (heap st))"
  "stack (open_node v st) = stack st @ [length (heap st)]"
  by (simp_all add: open_node_def Let_def)


lemma pop_sections_take:
  "stk \<noteq> [] \<Longrightarrow>
   \<exists>k. 1 \<le> k \<and> k \<le> length stk \<and> pop_sections h lv stk = take k stk \<and>
       (\<forall>a\<in>set (drop k stk). is_Section (variant (h ! a)) \<and> lv \<le> level (variant (h ! a))) \<and>
       (k = 1 \<or> \<not> (is_Section (variant (h ! (stk ! (k - 1)))) \<and>
                       lv \<le> level (variant (h ! (stk ! (k - 1))))))"
proof (induction h lv stk rule: pop_sections.induct)
  case (1 h lv stk)
  show ?case
  proof (cases "length stk > 1 \<and> is_Section (variant (h ! last stk))
                 \<and> level (variant (h ! last stk)) \<ge> lv")
    case True
    then have ne: "butlast stk \<noteq> []"
      by (cases stk rule: rev_cases) auto
    from "1.IH" [OF True ne] obtain k where k: "1 \<le> k" "k \<le> length (butlast stk)"
      "pop_sections h lv (butlast stk) = take k (butlast stk)"
      "\<forall>a\<in>set (drop k (butlast stk)). is_Section (variant (h ! a)) \<and> lv \<le> level (variant (h ! a))"
      "k = 1 \<or> \<not> (is_Section (variant (h ! (butlast stk ! (k - 1)))) \<and>
                       lv \<le> level (variant (h ! (butlast stk ! (k - 1)))))"
      by blast
    from "1.prems" obtain ys y where stk: "stk = ys @ [y]"
      by (cases stk rule: rev_cases) auto
    with k True have "pop_sections h lv stk = take k stk"
      by (subst pop_sections.simps) simp
    moreover from k stk True
    have "\<forall>a\<in>set (drop k stk). is_Section (variant (h ! a)) \<and> lv \<le> level (variant (h ! a))"
      by auto
    moreover from k stk have "k = 1 \<or> \<not> (is_Section (variant (h ! (stk ! (k - 1)))) \<and>
                       lv \<le> level (variant (h ! (stk ! (k - 1)))))"
      by (auto simp: nth_append)
    moreover from k stk have "k \<le> length stk" by simp
    ultimately show ?thesis using k(1) by blast
  next
    case False
    then have eq: "pop_sections h lv stk = stk"
      by (subst pop_sections.simps) auto
    from "1.prems" have len: "1 \<le> length stk"
      by (cases stk) auto
    have "length stk = 1 \<or> \<not> (is_Section (variant (h ! (stk ! (length stk - 1)))) \<and>
                       lv \<le> level (variant (h ! (stk ! (length stk - 1)))))"
      using False "1.prems" len by (auto simp: last_conv_nth)
    with eq len show ?thesis
      by (intro exI [of _ "length stk"]) simp
  qed
qed


subsection \<open>The stack stays well formed\<close>

lemma stack_ok_take:
  assumes "stack_ok st" "1 \<le> k"
  shows "stack_ok (st\<lparr>stack := take k (stack st)\<rparr>)"
proof -
  from assms(1) obtain x xs where s: "stack st = x # xs"
    unfolding stack_ok_def by (cases "stack st") auto
  from assms(2) obtain k' where k: "k = Suc k'" by (cases k) auto
  show ?thesis
    using assms(1) unfolding stack_ok_def s k
    by (auto dest: in_set_takeD)
qed

lemma stack_ok_top:
  assumes "stack_ok st"
  shows "stack st \<noteq> []" "last (stack st) < length (heap st)" "doc < length (heap st)"
    "is_Document (variant (heap st ! doc))"
proof -
  from assms show ne: "stack st \<noteq> []" by (simp add: stack_ok_def)
  from assms ne show "last (stack st) < length (heap st)" by (simp add: stack_ok_def)
  from assms ne hd_in_set [OF ne] have "hd (stack st) < length (heap st)"
    unfolding stack_ok_def by blast
  with assms show d: "doc < length (heap st)" by (simp add: stack_ok_def)
  with assms show "is_Document (variant (heap st ! doc))" by (simp add: stack_ok_def)
qed

lemma stack_ok_heap:
  assumes "stack_ok st" "length (heap st) \<le> length h'"
    "\<And>a. a < length (heap st) \<Longrightarrow> tag (variant (h' ! a)) = tag (variant (heap st ! a))"
    "\<And>a. length (heap st) \<le> a \<Longrightarrow> a < length h' \<Longrightarrow> \<not> is_Document (variant (h' ! a))"
  shows "stack_ok (st\<lparr>heap := h'\<rparr>)"
proof -
  have "is_Document (variant (h' ! a)) \<longleftrightarrow> a = doc" if "a < length h'" for a
  proof (cases "a < length (heap st)")
    case True
    then have "is_Document (variant (h' ! a)) = is_Document (variant (heap st ! a))"
      by (intro tag_eqD(1) assms(3))
    with True assms(1) show ?thesis by (simp add: stack_ok_def)
  next
    case False
    with that assms(4) [of a] stack_ok_top(3) [OF assms(1)] show ?thesis by auto
  qed
  with assms(1,2) show ?thesis
    by (fastforce simp: stack_ok_def)
qed

lemma stack_ok_push:
  assumes "stack_ok st" "a = length (heap st)" "length h' = Suc a"
    "\<And>b. b < length (heap st) \<Longrightarrow> tag (variant (h' ! b)) = tag (variant (heap st ! b))"
    "\<not> is_Document (variant (h' ! a))"
  shows "stack_ok \<lparr>heap = h', stack = stack st @ [a]\<rparr>"
proof -
  have "stack_ok (st\<lparr>heap := h'\<rparr>)"
    using assms by (intro stack_ok_heap) (auto simp: less_Suc_eq le_less)
  moreover from stack_ok_top [OF assms(1)] assms(2) have "a \<noteq> doc" by simp
  ultimately show ?thesis
    using assms(2,3) unfolding stack_ok_def
    by (cases "stack st") auto
qed

lemma stack_ok_open:
  assumes "stack_ok st" "\<not> is_Document v"
  shows "stack_ok (open_node v st)"
proof -
  have "open_node v st = \<lparr>heap = heap (open_node v st), stack = stack st @ [length (heap st)]\<rparr>"
    by (simp add: open_node_def Let_def)
  moreover have "stack_ok \<lparr>heap = heap (open_node v st), stack = stack st @ [length (heap st)]\<rparr>"
    using assms by (intro stack_ok_push) (simp_all add: heap_open_node nth_append)
  ultimately show ?thesis by simp
qed

lemma parse_line_stack_ok:
  assumes "parse_line raw n st = Inr st'" "stack_ok st"
  shows "stack_ok st'"
  using assms(1)
proof (cases rule: parse_line_cases)
  case skip
  with assms show ?thesis by simp
next
  case pop
  have "stack_ok (st\<lparr>stack := take (length (stack st) - 1) (stack st)\<rparr>)"
    using assms(2) by (rule stack_ok_take) (use pop(1) in simp)
  then show ?thesis unfolding pop(3) by (simp only: butlast_conv_take)
next
  case (sect lv ttl)
  from pop_sections_take [OF sect(2), of "heap st" lv] obtain k where
    k: "1 \<le> k" "pop_sections (heap st) lv (stack st) = take k (stack st)"
    by blast
  have "stack_ok (st\<lparr>stack := take k (stack st)\<rparr>)"
    using assms(2) k(1) by (rule stack_ok_take)
  then show ?thesis unfolding sect(3) k(2) by (rule stack_ok_open) simp
next
  case (opener v)
  from opener(2) have "\<not> is_Document v" by auto
  with assms(2) show ?thesis unfolding opener(3) by (rule stack_ok_open)
next
  case (meta k v)
  show ?thesis unfolding meta(3)
    using assms(2) meta(2) by (intro stack_ok_heap) (simp_all add: tag_set_metadata)
next
  case (item s)
  show ?thesis unfolding item(3)
    using assms(2) item(2) by (intro stack_ok_heap) (simp_all add: tag_append_item)
next
  case (para s)
  show ?thesis unfolding para(3)
    using assms(2) by (intro stack_ok_heap) (auto simp: nth_append less_Suc_eq)
qed

lemma parse_lines_stack_ok:
  "parse_lines n ls st = Inr st' \<Longrightarrow> stack_ok st \<Longrightarrow> stack_ok st'"
proof (induction ls arbitrary: n st)
  case Nil
  then show ?case by simp
next
  case (Cons raw ls)
  then show ?case
    by (auto split: sum.splits dest: parse_line_stack_ok)
qed

lemma stack_ok_init: "stack_ok init_state"
  by (simp add: stack_ok_def init_state_unfold doc_def)


subsection \<open>What a step does to the heap\<close>

lemma nth_push_child:
  "a \<le> length h \<Longrightarrow>
   variant (append_child (h @ [Node [] v]) p (length h) ! a)
     = (if a < length h then variant (h ! a) else v)"
  by (simp add: nth_append)

lemma children_push_child:
  "a \<le> length h \<Longrightarrow>
   children (append_child (h @ [Node [] v]) p (length h) ! a)
     = (if a < length h then children (h ! a) else []) @ (if a = p then [length h] else [])"
  by (auto simp: children_append_child nth_append less_Suc_eq_le)

text \<open>What one successful step does to the heap: the objects that exist keep their class and,
  if they are Sections, their level; at most one object is added.\<close>

lemma parse_line_heap:
  assumes "parse_line raw n st = Inr st'"
  shows "length (heap st) \<le> length (heap st') \<and>
         (\<forall>a<length (heap st). tag (variant (heap st' ! a)) = tag (variant (heap st ! a)))"
  using assms
proof (cases rule: parse_line_cases)
  case skip
  then show ?thesis by simp
next
  case pop
  then show ?thesis by simp
next
  case (sect lv ttl)
  then show ?thesis by (simp add: heap_open_node nth_append)
next
  case (opener v)
  then show ?thesis by (simp add: heap_open_node nth_append)
next
  case (meta k v)
  then show ?thesis by (simp add: tag_set_metadata)
next
  case (item s)
  then show ?thesis by (simp add: tag_append_item)
next
  case (para s)
  then show ?thesis by (simp add: nth_append)
qed

text \<open>The objects a step adds: at most one, with no children, and a Section among them has
  a level that is not negative.\<close>

lemma parse_line_new:
  assumes "parse_line raw n st = Inr st'" "length (heap st) \<le> a" "a < length (heap st')"
  shows "a = length (heap st) \<and> length (heap st') = Suc (length (heap st)) \<and>
         \<not> is_Document (variant (heap st' ! a)) \<and>
         (is_Section (variant (heap st' ! a)) \<longrightarrow> 0 \<le> level (variant (heap st' ! a)))"
  using assms(1)
proof (cases rule: parse_line_cases)
  case skip
  with assms show ?thesis by simp
next
  case pop
  with assms show ?thesis by simp
next
  case (sect lv ttl)
  with assms(2,3) have "a = length (heap st)" by (simp add: heap_open_node)
  with sect show ?thesis by (simp add: heap_open_node nth_push_child)
next
  case (opener v)
  with assms(2,3) have "a = length (heap st)" by (simp add: heap_open_node)
  with opener show ?thesis by (auto simp: heap_open_node nth_push_child)
next
  case (meta k v)
  with assms show ?thesis by simp
next
  case (item s)
  with assms show ?thesis by simp
next
  case (para s)
  with assms(2,3) have "a = length (heap st)" by simp
  with para show ?thesis by (simp add: nth_push_child)
qed

lemma parse_line_levels_nonneg:
  assumes "parse_line raw n st = Inr st'" "levels_nonneg (heap st)"
  shows "levels_nonneg (heap st')"
  unfolding levels_nonneg_def
proof (intro allI impI)
  fix a assume a: "a < length (heap st')" and s: "is_Section (variant (heap st' ! a))"
  show "0 \<le> level (variant (heap st' ! a))"
  proof (cases "a < length (heap st)")
    case True
    with parse_line_heap [OF assms(1)]
    have t: "tag (variant (heap st' ! a)) = tag (variant (heap st ! a))" by simp
    from tag_eq_level [OF t s] tag_eqD(2) [OF t] s assms(2) True show ?thesis
      by (simp add: levels_nonneg_def)
  next
    case False
    with parse_line_new [OF assms(1), of a] a s show ?thesis by auto
  qed
qed

lemma parse_lines_levels_nonneg:
  "parse_lines n ls st = Inr st' \<Longrightarrow> levels_nonneg (heap st) \<Longrightarrow> levels_nonneg (heap st')"
proof (induction ls arbitrary: n st)
  case Nil
  then show ?case by simp
next
  case (Cons raw ls)
  then show ?case
    by (auto split: sum.splits dest: parse_line_levels_nonneg)
qed


subsection \<open>What a step does to the child lists\<close>

lemma parse_line_children:
  assumes "parse_line raw n st = Inr st'" "stack_ok st" "a < length (heap st')"
  shows "children (heap st' ! a) = (if a < length (heap st) then children (heap st ! a) else [])
       \<or> (a < length (heap st) \<and>
          children (heap st' ! a) = children (heap st ! a) @ [length (heap st)] \<and>
          length (heap st') = Suc (length (heap st)) \<and>
          (is_Paragraph (variant (heap st' ! length (heap st)))
             \<longrightarrow> \<not> is_ListBlock (variant (heap st ! a))))"
  using assms(1)
proof (cases rule: parse_line_cases)
  case skip
  with assms show ?thesis by simp
next
  case pop
  with assms show ?thesis by simp
next
  case (sect lv ttl)
  from pop_sections_take [OF sect(2), of "heap st" lv] obtain k where
    k: "1 \<le> k" "pop_sections (heap st) lv (stack st) = take k (stack st)"
    by blast
  have "stack_ok (st\<lparr>stack := take k (stack st)\<rparr>)"
    using assms(2) k(1) by (rule stack_ok_take)
  from stack_ok_top(2) [OF this] have "last (take k (stack st)) < length (heap st)" by simp
  with sect k assms(3) show ?thesis
    by (auto simp: heap_open_node children_push_child nth_push_child less_Suc_eq_le)
next
  case (opener v)
  from stack_ok_top(2) [OF assms(2)] opener assms(3) show ?thesis
    by (auto simp: heap_open_node children_push_child nth_push_child less_Suc_eq_le)
next
  case (meta k v)
  with assms show ?thesis by simp
next
  case (item s)
  with assms show ?thesis by simp
next
  case (para s)
  from stack_ok_top(2) [OF assms(2)] para assms(3) show ?thesis
    by (auto simp: children_push_child nth_push_child less_Suc_eq_le)
qed

lemma parse_line_no_para:
  assumes "parse_line raw n st = Inr st'" "stack_ok st" "no_para_in_list (heap st)"
  shows "no_para_in_list (heap st')"
  unfolding no_para_in_list_def
proof (intro allI impI ballI)
  fix a c
  assume a: "a < length (heap st')" and lb: "is_ListBlock (variant (heap st' ! a))"
    and c: "c \<in> set (children (heap st' ! a))"
  note hp = parse_line_heap [OF assms(1)]
  have old: "c < length (heap st') \<and> \<not> is_Paragraph (variant (heap st' ! c))"
    if "a < length (heap st)" "c \<in> set (children (heap st ! a))" for c
  proof -
    from hp that(1) have t: "tag (variant (heap st' ! a)) = tag (variant (heap st ! a))"
      by simp
    with lb have "is_ListBlock (variant (heap st ! a))" by (simp add: tag_eqD(4) [OF t])
    with assms(3) that have c: "c < length (heap st)" "\<not> is_Paragraph (variant (heap st ! c))"
      by (auto simp: no_para_in_list_def)
    from hp c(1) have "tag (variant (heap st' ! c)) = tag (variant (heap st ! c))" by simp
    from tag_eqD(3) [OF this] c hp show ?thesis by simp
  qed
  from parse_line_children [OF assms(1,2) a]
  show "c < length (heap st') \<and> \<not> is_Paragraph (variant (heap st' ! c))"
  proof
    assume "children (heap st' ! a) = (if a < length (heap st) then children (heap st ! a) else [])"
    with c old show ?thesis by (auto split: if_splits)
  next
    assume new: "a < length (heap st) \<and>
          children (heap st' ! a) = children (heap st ! a) @ [length (heap st)] \<and>
          length (heap st') = Suc (length (heap st)) \<and>
          (is_Paragraph (variant (heap st' ! length (heap st)))
             \<longrightarrow> \<not> is_ListBlock (variant (heap st ! a)))"
    from hp new have t: "tag (variant (heap st' ! a)) = tag (variant (heap st ! a))"
      by simp
    with lb have "is_ListBlock (variant (heap st ! a))" by (simp add: tag_eqD(4) [OF t])
    with new have np: "\<not> is_Paragraph (variant (heap st' ! length (heap st)))" by simp
    from c new consider "c \<in> set (children (heap st ! a))" | "c = length (heap st)" by auto
    then show ?thesis
    proof cases
      case 1
      with old new show ?thesis by simp
    next
      case 2
      with np new show ?thesis by simp
    qed
  qed
qed

lemma parse_lines_no_para:
  "parse_lines n ls st = Inr st' \<Longrightarrow> stack_ok st \<Longrightarrow> no_para_in_list (heap st)
   \<Longrightarrow> no_para_in_list (heap st')"
proof (induction ls arbitrary: n st)
  case Nil
  then show ?case by simp
next
  case (Cons raw ls)
  then show ?case
    by (auto split: sum.splits dest: parse_line_no_para parse_line_stack_ok)
qed


subsection \<open>Neighbouring Sections of the stack\<close>

lemma sections_ordered_take:
  "sections_ordered h stk \<Longrightarrow> sections_ordered h (take k stk)"
  by (simp add: sections_ordered_def)

lemma sections_ordered_heap:
  assumes "sections_ordered h stk" "\<forall>a\<in>set stk. a < length h"
    "\<forall>a<length h. tag (variant (h' ! a)) = tag (variant (h ! a))"
  shows "sections_ordered h' stk"
  unfolding sections_ordered_def
proof (intro allI impI)
  fix i
  assume i: "Suc i < length stk" and s1: "is_Section (variant (h' ! (stk ! i)))"
    and s2: "is_Section (variant (h' ! (stk ! Suc i)))"
  from i assms(2) have "stk ! i < length h" "stk ! Suc i < length h" by simp_all
  with assms(3) have t1: "tag (variant (h' ! (stk ! i))) = tag (variant (h ! (stk ! i)))"
    and t2: "tag (variant (h' ! (stk ! Suc i))) = tag (variant (h ! (stk ! Suc i)))"
    by simp_all
  from s1 s2 have "is_Section (variant (h ! (stk ! i)))" "is_Section (variant (h ! (stk ! Suc i)))"
    by (simp_all add: tag_eqD(2) [OF t1] tag_eqD(2) [OF t2])
  with assms(1) i have "level (variant (h ! (stk ! i))) < level (variant (h ! (stk ! Suc i)))"
    by (simp add: sections_ordered_def)
  with tag_eq_level [OF t1 s1] tag_eq_level [OF t2 s2]
  show "level (variant (h' ! (stk ! i))) < level (variant (h' ! (stk ! Suc i)))" by simp
qed

lemma sections_ordered_snoc:
  assumes "sections_ordered h stk" "stk \<noteq> []"
    "is_Section (variant (h ! last stk)) \<Longrightarrow> is_Section (variant (h ! a)) \<Longrightarrow>
       level (variant (h ! last stk)) < level (variant (h ! a))"
  shows "sections_ordered h (stk @ [a])"
  unfolding sections_ordered_def
proof (intro allI impI)
  fix i
  assume i: "Suc i < length (stk @ [a])"
    and s1: "is_Section (variant (h ! ((stk @ [a]) ! i)))"
    and s2: "is_Section (variant (h ! ((stk @ [a]) ! Suc i)))"
  show "level (variant (h ! ((stk @ [a]) ! i))) < level (variant (h ! ((stk @ [a]) ! Suc i)))"
  proof (cases "Suc i < length stk")
    case True
    with assms(1) s1 s2 show ?thesis by (simp add: sections_ordered_def nth_append)
  next
    case False
    with i have e: "i = length stk - 1" "Suc i = length stk" by simp_all
    from assms(2) have "(stk @ [a]) ! i = last stk" "(stk @ [a]) ! Suc i = a"
      unfolding e by (simp_all add: nth_append last_conv_nth)
    with s1 s2 assms(3) show ?thesis by simp
  qed
qed

lemma parse_line_sections_ordered:
  assumes "parse_line raw n st = Inr st'" "stack_ok st" "sections_ordered (heap st) (stack st)"
  shows "sections_ordered (heap st') (stack st')"
proof -
  note hp = parse_line_heap [OF assms(1)]
  from assms(2) have valid: "\<forall>a\<in>set (stack st). a < length (heap st)"
    by (simp add: stack_ok_def)
  have so: "sections_ordered (heap st') (stack st)"
    using assms(3) valid conjunct2 [OF hp] by (rule sections_ordered_heap)
  from assms(1) show ?thesis
  proof (cases rule: parse_line_cases)
    case skip
    with so show ?thesis by simp
  next
    case pop
    with sections_ordered_take [OF so, of "length (stack st) - 1"] show ?thesis
      by (simp add: butlast_conv_take)
  next
    case (sect lv ttl)
    from pop_sections_take [OF sect(2), of "heap st" lv] obtain k where
      k: "1 \<le> k" "k \<le> length (stack st)"
         "pop_sections (heap st) lv (stack st) = take k (stack st)"
         "k = 1 \<or> \<not> (is_Section (variant (heap st ! (stack st ! (k - 1)))) \<and>
                       lv \<le> level (variant (heap st ! (stack st ! (k - 1)))))"
      by blast
    let ?top = "stack st ! (k - 1)"
    from k(1,2) have lt: "last (take k (stack st)) = ?top" and ne: "take k (stack st) \<noteq> []"
      using sect(2) by (auto simp: last_conv_nth min_def)
    from k(1,2) valid have top: "?top < length (heap st)" by simp
    with hp have t: "tag (variant (heap st' ! ?top)) = tag (variant (heap st ! ?top))" by simp
    have new: "variant (heap st' ! length (heap st)) = Section lv ttl"
      unfolding sect(3) by (simp add: heap_open_node nth_push_child)
    have stop: "level (variant (heap st' ! ?top)) < lv" if s: "is_Section (variant (heap st' ! ?top))"
    proof -
      from s tag_eqD(2) [OF t] have s': "is_Section (variant (heap st ! ?top))" by blast
      have "k \<noteq> 1"
      proof
        assume "k = 1"
        with assms(2) sect(2) have "?top = doc" by (simp add: stack_ok_def hd_conv_nth)
        with stack_ok_top(4) [OF assms(2)] s' show False
          by (cases "variant (heap st ! doc)") simp_all
      qed
      with k(4) s' have "level (variant (heap st ! ?top)) < lv" by auto
      with tag_eq_level [OF t s] show ?thesis by simp
    qed
    have "sections_ordered (heap st') (take k (stack st) @ [length (heap st)])"
      using sections_ordered_take [OF so, of k] ne
    proof (rule sections_ordered_snoc)
      assume "is_Section (variant (heap st' ! last (take k (stack st))))"
      then have "level (variant (heap st' ! ?top)) < lv"
        unfolding lt by (rule stop)
      then show "level (variant (heap st' ! last (take k (stack st))))
                   < level (variant (heap st' ! length (heap st)))"
        unfolding lt new by simp
    qed
    then show ?thesis unfolding sect(3) by (simp add: heap_open_node k(3))
  next
    case (opener v)
    have new: "variant (heap st' ! length (heap st)) = v"
      unfolding opener(3) by (simp add: heap_open_node nth_push_child)
    from opener(2) have "\<not> is_Section v" by auto
    with new have "sections_ordered (heap st') (stack st @ [length (heap st)])"
      using so opener(1) by (intro sections_ordered_snoc) simp_all
    then show ?thesis unfolding opener(3) by (simp add: heap_open_node)
  next
    case (meta k v)
    with so show ?thesis by simp
  next
    case (item s)
    with so show ?thesis by simp
  next
    case (para s)
    with so show ?thesis by simp
  qed
qed

lemma parse_lines_sections_ordered:
  "parse_lines n ls st = Inr st' \<Longrightarrow> stack_ok st \<Longrightarrow> sections_ordered (heap st) (stack st)
   \<Longrightarrow> sections_ordered (heap st') (stack st')"
proof (induction ls arbitrary: n st)
  case Nil
  then show ?case by simp
next
  case (Cons raw ls)
  then show ?case
    by (auto split: sum.splits dest: parse_line_sections_ordered parse_line_stack_ok)
qed

lemma sections_ordered_runs:
  assumes "sections_ordered h stk"
  shows "level_ordered_runs h stk"
  unfolding level_ordered_runs_def
proof (intro allI impI)
  fix i j
  assume "i < length stk" "j < i"
    "\<forall>m. j \<le> m \<and> m \<le> i \<longrightarrow> is_Section (variant (h ! (stk ! m)))"
  then show "level (variant (h ! (stk ! j))) < level (variant (h ! (stk ! i)))"
  proof (induction i)
    case 0
    then show ?case by simp
  next
    case (Suc i)
    from Suc.prems assms
    have step: "level (variant (h ! (stk ! i))) < level (variant (h ! (stk ! Suc i)))"
      by (simp add: sections_ordered_def)
    show ?case
    proof (cases "j = i")
      case True
      with step show ?thesis by simp
    next
      case False
      with Suc.prems have "level (variant (h ! (stk ! j))) < level (variant (h ! (stk ! i)))"
        by (intro Suc.IH) auto
      with step show ?thesis by simp
    qed
  qed
qed


subsection \<open>Where an error comes from\<close>

lemma carries_line_msg: "carries_line (line_msg n msg) n"
  by (simp add: carries_line_def line_msg_def startswith_def)

lemma parse_line_error:
  assumes "parse_line raw n st = Inl (ParseError m)"
  shows "carries_line (ParseError m) n"
proof (cases "startswith (rstrip raw) ''#''")
  case True
  with assms have "handle_command (rstrip raw) n st = Inl (ParseError m)"
    by (simp add: parse_line_def)
  then have "\<exists>msg. line_msg n msg = ParseError m"
    unfolding handle_command_def Let_def
    by (auto split: if_splits sum.splits simp: py_int_def)
  then obtain msg where "line_msg n msg = ParseError m" by blast
  with carries_line_msg [of n msg] show ?thesis by simp
next
  case False
  with assms have "handle_text (rstrip raw) n st = Inl (ParseError m)"
    by (simp add: parse_line_def)
  then have "\<exists>msg. line_msg n msg = ParseError m"
    unfolding handle_text_def Let_def
    by (auto split: if_splits)
  then obtain msg where "line_msg n msg = ParseError m" by blast
  with carries_line_msg [of n msg] show ?thesis by simp
qed

lemma parse_lines_error:
  "parse_lines n ls st = Inl e \<Longrightarrow>
   \<exists>k<length ls. \<exists>st'. parse_lines n (take k ls) st = Inr st' \<and>
      parse_line (ls ! k) (n + k) st' = Inl e"
proof (induction ls arbitrary: n st)
  case Nil
  then show ?case by simp
next
  case (Cons raw ls)
  show ?case
  proof (cases "parse_line raw n st")
    case (Inl e')
    with Cons.prems have "e' = e" by simp
    with Inl show ?thesis by (intro exI [of _ 0]) simp
  next
    case (Inr st1)
    with Cons.prems have "parse_lines (Suc n) ls st1 = Inl e" by simp
    from Cons.IH [OF this] obtain k st' where k: "k < length ls"
      "parse_lines (Suc n) (take k ls) st1 = Inr st'"
      "parse_line (ls ! k) (Suc n + k) st' = Inl e"
      by blast
    with Inr show ?thesis by (intro exI [of _ "Suc k"]) simp
  qed
qed


subsection \<open>A call behind earlier objects\<close>

lemma shift_sel [simp]:
  "variant (shift n nd) = variant nd" "children (shift n nd) = map (\<lambda>c. c + n) (children nd)"
  by (simp_all add: shift_def)

lemma relocate_sel [simp]:
  "heap (relocate h0 st) = h0 @ map (shift (length h0)) (heap st)"
  "stack (relocate h0 st) = map (\<lambda>a. a + length h0) (stack st)"
  by (simp_all add: relocate_def)

lemma relocate_nth:
  "a < length h \<Longrightarrow> (h0 @ map (shift (length h0)) h) ! (a + length h0) = shift (length h0) (h ! a)"
  by (simp add: nth_append)

lemma relocate_pop_sections:
  "\<forall>a\<in>set stk. a < length h \<Longrightarrow>
   pop_sections (h0 @ map (shift (length h0)) h) lv (map (\<lambda>a. a + length h0) stk)
     = map (\<lambda>a. a + length h0) (pop_sections h lv stk)"
proof (induction h lv stk rule: pop_sections.induct)
  case (1 h lv stk)
  let ?H = "h0 @ map (shift (length h0)) h"
  let ?f = "\<lambda>a. a + length h0"
  show ?case
  proof (cases "length stk > 1 \<and> is_Section (variant (h ! last stk))
                 \<and> level (variant (h ! last stk)) \<ge> lv")
    case True
    then have ne: "stk \<noteq> []" by auto
    with "1.prems" have top: "last stk < length h" by simp
    from ne have l: "last (map ?f stk) = last stk + length h0" by (simp add: last_map)
    from "1.prems" have "\<forall>a\<in>set (butlast stk). a < length h"
      by (auto dest: in_set_butlastD)
    from "1.IH" [OF True this]
    have IH: "pop_sections ?H lv (map ?f (butlast stk)) = map ?f (pop_sections h lv (butlast stk))" .
    have "pop_sections ?H lv (map ?f stk) = pop_sections ?H lv (butlast (map ?f stk))"
      using True by (subst pop_sections.simps) (simp add: l relocate_nth [OF top])
    also have "\<dots> = map ?f (pop_sections h lv (butlast stk))"
      by (simp only: map_butlast [symmetric] IH)
    also have "\<dots> = map ?f (pop_sections h lv stk)"
      using True by (subst (2) pop_sections.simps) simp
    finally show ?thesis .
  next
    case False
    have "pop_sections ?H lv (map ?f stk) = map ?f stk"
    proof (cases "stk = []")
      case True
      then show ?thesis by (subst pop_sections.simps) simp
    next
      case ne: False
      with "1.prems" have top: "last stk < length h" by simp
      from ne have l: "last (map ?f stk) = last stk + length h0" by (simp add: last_map)
      from False show ?thesis
        by (subst pop_sections.simps) (auto simp: l relocate_nth [OF top])
    qed
    moreover have "pop_sections h lv stk = stk"
      using False by (subst pop_sections.simps) auto
    ultimately show ?thesis by simp
  qed
qed

lemma relocate_update:
  "a < length h \<Longrightarrow>
   (h0 @ map (shift (length h0)) h)[a + length h0 := shift (length h0) nd]
     = h0 @ map (shift (length h0)) (h[a := nd])"
  by (simp add: list_update_append map_update)

lemma relocate_open_node:
  assumes "stack st \<noteq> []" "last (stack st) < length (heap st)"
  shows "open_node v (relocate h0 st) = relocate h0 (open_node v st)"
proof -
  let ?n = "length h0"
  let ?h = "heap st @ [Node [] v]"
  let ?p = "last (stack st)"
  from assms(2) have p: "?p < length ?h" by simp
  have "heap (open_node v (relocate h0 st))
      = (h0 @ map (shift ?n) ?h)[?p + ?n :=
           shift ?n (Node (children (?h ! ?p) @ [length (heap st)]) (variant (?h ! ?p)))]"
    using assms
    by (simp add: open_node_def Let_def append_child_def last_map nth_append
        shift_def add.commute)
  also have "\<dots> = h0 @ map (shift ?n) (heap (open_node v st))"
    unfolding relocate_update [OF p] by (simp add: open_node_def Let_def append_child_def)
  finally have "heap (open_node v (relocate h0 st)) = heap (relocate h0 (open_node v st))"
    by simp
  moreover have "stack (open_node v (relocate h0 st)) = stack (relocate h0 (open_node v st))"
    by (simp add: open_node_def Let_def add.commute)
  ultimately show ?thesis by simp
qed


lemma relocate_set_metadata:
  "p < length h \<Longrightarrow>
   set_metadata (h0 @ map (shift (length h0)) h) (p + length h0) k v
     = h0 @ map (shift (length h0)) (set_metadata h p k v)"
  unfolding set_metadata_def
  by (simp add: relocate_nth relocate_update [symmetric] shift_def)

lemma relocate_append_item:
  "p < length h \<Longrightarrow>
   append_item (h0 @ map (shift (length h0)) h) (p + length h0) x
     = h0 @ map (shift (length h0)) (append_item h p x)"
  unfolding append_item_def
  by (simp add: relocate_nth relocate_update [symmetric] shift_def)

lemma relocate_stack_update:
  "(relocate h0 st)\<lparr>stack := map (\<lambda>a. a + length h0) s\<rparr> = relocate h0 (st\<lparr>stack := s\<rparr>)"
  by (simp add: relocate_def)

lemma relocate_heap_update:
  "(relocate h0 st)\<lparr>heap := h0 @ map (shift (length h0)) h\<rparr> = relocate h0 (st\<lparr>heap := h\<rparr>)"
  by (simp add: relocate_def)

lemma stack_ok_pop_sections:
  assumes "stack_ok st"
  shows "stack_ok (st\<lparr>stack := pop_sections (heap st) lv (stack st)\<rparr>)"
proof -
  from pop_sections_take [OF stack_ok_top(1) [OF assms], of "heap st" lv] obtain k where
    k: "1 \<le> k" "pop_sections (heap st) lv (stack st) = take k (stack st)"
    by blast
  from stack_ok_take [OF assms k(1)] k(2) show ?thesis by simp
qed

lemma relocate_top:
  assumes "stack_ok st"
  shows "last (stack (relocate h0 st)) = last (stack st) + length h0"
    and "variant (heap (relocate h0 st) ! (last (stack st) + length h0))
           = variant (heap st ! last (stack st))"
  using stack_ok_top(1,2) [OF assms] by (simp_all add: last_map relocate_nth)

lemma relocate_handle_command:
  assumes "stack_ok st"
  shows "handle_command line k (relocate h0 st)
           = map_sum id (relocate h0) (handle_command line k st)"
proof -
  note ok = stack_ok_top(1,2) [OF assms]
  from assms have valid: "\<forall>a\<in>set (stack st). a < length (heap st)"
    by (simp add: stack_ok_def)
  have pop: "(relocate h0 st)\<lparr>stack := butlast (stack (relocate h0 st))\<rparr>
               = relocate h0 (st\<lparr>stack := butlast (stack st)\<rparr>)"
    by (simp add: relocate_def map_butlast)
  have sect: "open_node v ((relocate h0 st)\<lparr>stack :=
                  pop_sections (heap (relocate h0 st)) lv (stack (relocate h0 st))\<rparr>)
               = relocate h0 (open_node v (st\<lparr>stack := pop_sections (heap st) lv (stack st)\<rparr>))"
    for v lv
  proof -
    have "(relocate h0 st)\<lparr>stack :=
            pop_sections (heap (relocate h0 st)) lv (stack (relocate h0 st))\<rparr>
          = relocate h0 (st\<lparr>stack := pop_sections (heap st) lv (stack st)\<rparr>)"
      by (simp add: relocate_pop_sections [OF valid] relocate_stack_update)
    moreover note stack_ok_top(1,2) [OF stack_ok_pop_sections [OF assms, of lv]]
    ultimately show ?thesis by (simp add: relocate_open_node)
  qed
  have opn: "open_node v (relocate h0 st) = relocate h0 (open_node v st)" for v
    using ok by (rule relocate_open_node)
  have meta: "(relocate h0 st)\<lparr>heap := set_metadata (heap (relocate h0 st))
                  (last (stack (relocate h0 st))) c a\<rparr>
               = relocate h0 (st\<lparr>heap := set_metadata (heap st) (last (stack st)) c a\<rparr>)"
    for c a
    using ok by (simp add: last_map relocate_set_metadata relocate_heap_update)
  have len: "length (stack (relocate h0 st)) = length (stack st)"
    "(stack (relocate h0 st) = []) = (stack st = [])"
    by simp_all
  show ?thesis
    unfolding handle_command_def Let_def
    unfolding pop sect opn meta len
    unfolding relocate_top [OF assms]
    by (simp split: sum.splits)
qed


lemma relocate_handle_text:
  assumes "stack_ok st"
  shows "handle_text line k (relocate h0 st)
           = map_sum id (relocate h0) (handle_text line k st)"
proof -
  note ok = stack_ok_top(1,2) [OF assms]
  have item: "(relocate h0 st)\<lparr>heap := append_item (heap (relocate h0 st))
                  (last (stack (relocate h0 st))) x\<rparr>
               = relocate h0 (st\<lparr>heap := append_item (heap st) (last (stack st)) x\<rparr>)"
    for x
    using ok by (simp add: last_map relocate_append_item relocate_heap_update)
  have para: "(relocate h0 st)\<lparr>heap := append_child (heap (relocate h0 st) @ [Node [] v])
                  (last (stack (relocate h0 st))) (length (heap (relocate h0 st)))\<rparr>
               = relocate h0 (st\<lparr>heap := append_child (heap st @ [Node [] v])
                  (last (stack st)) (length (heap st))\<rparr>)"
    for v
  proof -
    have "append_child (heap (relocate h0 st) @ [Node [] v])
            (last (stack (relocate h0 st))) (length (heap (relocate h0 st)))
          = heap (open_node v (relocate h0 st))"
      by (simp only: heap_open_node)
    also have "\<dots> = heap (relocate h0 (open_node v st))"
      by (simp only: relocate_open_node [OF ok])
    also have "\<dots> = h0 @ map (shift (length h0))
                  (append_child (heap st @ [Node [] v]) (last (stack st)) (length (heap st)))"
      by (simp only: relocate_sel heap_open_node)
    finally show ?thesis by (simp only: relocate_heap_update)
  qed
  have len: "(stack (relocate h0 st) = []) = (stack st = [])"
    by simp
  show ?thesis
    unfolding handle_text_def Let_def
    unfolding item para len
    unfolding relocate_top [OF assms]
    by simp
qed

lemma relocate_parse_line:
  "stack_ok st \<Longrightarrow>
   parse_line raw k (relocate h0 st) = map_sum id (relocate h0) (parse_line raw k st)"
  by (simp add: parse_line_def Let_def relocate_handle_command relocate_handle_text)

lemma relocate_parse_lines:
  "stack_ok st \<Longrightarrow>
   parse_lines k ls (relocate h0 st) = map_sum id (relocate h0) (parse_lines k ls st)"
proof (induction ls arbitrary: k st)
  case Nil
  then show ?case by simp
next
  case (Cons raw ls)
  show ?case
  proof (cases "parse_line raw k st")
    case (Inl e)
    with Cons.prems show ?thesis by (simp add: relocate_parse_line)
  next
    case (Inr st1)
    with Cons.prems have "stack_ok st1" by (auto dest: parse_line_stack_ok)
    from Cons.IH [OF this] Inr Cons.prems show ?thesis by (simp add: relocate_parse_line)
  qed
qed

lemma relocate_init: "init_state_in h0 = relocate h0 init_state"
  by (simp add: init_state_in_def relocate_def init_state_unfold doc_def shift_def)

text \<open>A call behind earlier objects returns what a call on its own returns, moved.\<close>

lemma relocate_parse_blocks:
  "parse_blocks_in h0 source =
     (case parse_blocks source of
        Inl e \<Rightarrow> Inl e
      | Inr (h, r) \<Rightarrow> Inr (h0 @ map (shift (length h0)) h, r + length h0))"
proof (cases "run_lines source")
  case (Inl e)
  then have "parse_lines 1 (splitlines source) init_state = Inl e"
    by (simp add: run_lines_def)
  with Inl show ?thesis
    by (simp add: parse_blocks_in_def parse_blocks_unfold relocate_init
        relocate_parse_lines [OF stack_ok_init])
next
  case (Inr st)
  then have ok: "stack_ok st"
    unfolding run_lines_def using stack_ok_init by (rule parse_lines_stack_ok)
  then have valid: "\<forall>a\<in>set (tl (stack st)). a < length (heap st)"
    by (auto simp: stack_ok_def dest: list.set_sel(2))
  have "list_ex (\<lambda>a. is_explicit (variant (heap (relocate h0 st) ! a))) (tl (stack (relocate h0 st)))
        = list_ex (\<lambda>a. is_explicit (variant (heap st ! a))) (tl (stack st))"
    using valid by (simp add: list_ex_iff map_tl [symmetric] relocate_nth del: relocate_sel(1))
      (simp add: relocate_nth)
  moreover from Inr have "parse_lines 1 (splitlines source) init_state = Inr st"
    by (simp add: run_lines_def)
  ultimately show ?thesis using Inr
    by (simp add: parse_blocks_in_def parse_blocks_unfold relocate_init
        relocate_parse_lines [OF stack_ok_init] doc_def del: relocate_sel)
      (simp add: relocate_def)
qed

lemma tree_of_relocate:
  "a < length h \<Longrightarrow> tree_of (h0 @ map (shift (length h0)) h) (a + length h0) = tree_of h a"
proof (induction h a rule: tree_of.induct)
  case (1 h a)
  let ?H = "h0 @ map (shift (length h0)) h"
  let ?n = "length h0"
  let ?cs = "filter (\<lambda>c. a < c \<and> c < length h) (children (h ! a))"
  have f: "filter (\<lambda>c. a + ?n < c \<and> c < ?n + length h) (map (\<lambda>c. c + ?n) (children (h ! a)))
             = map (\<lambda>c. c + ?n) ?cs"
    by (simp add: filter_map comp_def add.commute)
  have "tree_of ?H (a + ?n) = Tree (map (\<lambda>c. tree_of ?H (c + ?n)) ?cs) (variant (h ! a))"
    using "1.prems" by (subst tree_of.simps) (simp add: f relocate_nth comp_def)
  also have "map (\<lambda>c. tree_of ?H (c + ?n)) ?cs = map (tree_of h) ?cs"
    by (rule map_cong [OF refl]) (simp add: "1.IH")
  also have "Tree (map (tree_of h) ?cs) (variant (h ! a)) = tree_of h a"
    by (rule tree_of.simps [symmetric])
  finally show ?case .
qed


subsection \<open>The directives \<^verbatim>\<open>end\<close>, list items and metadata\<close>

text \<open>
  Claim C3.  An \<^verbatim>\<open>end\<close> directive fails with the error \<^verbatim>\<open>Line n: unexpected #end\<close>, \<open>n\<close>
  being the number of its line, when the stack holds one element only (the Document); it
  fails with \<^verbatim>\<open>Line n: sections do not use #end\<close> when the top of the stack is a Section;
  in every other case it removes the top element of the stack and changes nothing else.
  In particular an \<^verbatim>\<open>#end\<close> that follows the \<^verbatim>\<open>#end\<close> of the only open Definition fails
  with \<^verbatim>\<open>unexpected #end\<close> at its own line, line 4 in the example.
\<close>

theorem end_directive:
  assumes "startswith line ''#''" and "cmd_of (split1 line) = ''end''" and "stack st \<noteq> []"
  shows "handle_command line lineno st =
           (if length (stack st) = 1
              then Inl (ParseError (''Line '' @ str_nat lineno @ '': unexpected #end''))
            else if is_Section (variant (heap st ! last (stack st)))
              then Inl (ParseError (''Line '' @ str_nat lineno @ '': sections do not use #end''))
            else Inr \<lparr>heap = heap st, stack = butlast (stack st)\<rparr>)
         \<and> parse_blocks ''#def Term\<newline>prose\<newline>#end\<newline>#end''
             = Inl (ParseError ''Line 4: unexpected #end'')"
proof
  from assms split1_directive [OF assms(1)]
  show "handle_command line lineno st =
           (if length (stack st) = 1
              then Inl (ParseError (''Line '' @ str_nat lineno @ '': unexpected #end''))
            else if is_Section (variant (heap st ! last (stack st)))
              then Inl (ParseError (''Line '' @ str_nat lineno @ '': sections do not use #end''))
            else Inr \<lparr>heap = heap st, stack = butlast (stack st)\<rparr>)"
    by (simp add: handle_command_def line_msg_def)
  show "parse_blocks ''#def Term\<newline>prose\<newline>#end\<newline>#end''
          = Inl (ParseError ''Line 4: unexpected #end'')"
    by (simp add: eval_defs)
qed

theorem end_directive_witness:
  "startswith ''#end'' ''#'' \<and> cmd_of (split1 ''#end'') = ''end''
   \<and> stack \<lparr>heap = [Node [1] (Document Map.empty), Node [] (Definition ''Term'')],
              stack = [0, 1]\<rparr> \<noteq> []
   \<and> handle_command ''#end'' 3
        \<lparr>heap = [Node [1] (Document Map.empty), Node [] (Definition ''Term'')], stack = [0, 1]\<rparr>
      = Inr \<lparr>heap = [Node [1] (Document Map.empty), Node [] (Definition ''Term'')], stack = [0]\<rparr>"
  using end_directive [of "''#end''"
      "\<lparr>heap = [Node [1] (Document Map.empty), Node [] (Definition ''Term'')], stack = [0, 1]\<rparr>" 3]
  by (simp add: startswith_def cmd_of_def split1_def isspace_def)

text \<open>
  Claim C4.  While the top of the stack is a ListBlock, a line that is not blank and starts
  with \<^verbatim>\<open>- \<close> appends the rest of the line, after these two characters, to the items of
  that ListBlock and changes nothing else; a line that is not blank and does not start
  with \<^verbatim>\<open>- \<close> fails with \<^verbatim>\<open>Line n: list items must start with '- '\<close>, \<open>n\<close> being the number of
  the line.  So \<^verbatim>\<open>#list\<close>, \<^verbatim>\<open>- a\<close>, \<^verbatim>\<open>- b\<close>, \<^verbatim>\<open>#end\<close> gives a Document whose only child
  is a ListBlock with the items \<open>a\<close> and \<open>b\<close>, and a line \<^verbatim>\<open>x\<close> in an open list fails at its
  line.
\<close>

theorem list_item_lines:
  assumes "stack st \<noteq> []" and "is_ListBlock (variant (heap st ! last (stack st)))"
    and "strip line \<noteq> []"
  shows "handle_text line lineno st =
           (if startswith line ''- ''
            then Inr \<lparr>heap = (heap st)[last (stack st) :=
                          Node (children (heap st ! last (stack st)))
                            (ListBlock (items (variant (heap st ! last (stack st))) @ [drop 2 line]))],
                      stack = stack st\<rparr>
            else Inl (ParseError (''Line '' @ str_nat lineno @ '': list items must start with ''
                        @ [CHR 0x27] @ ''- '' @ [CHR 0x27])))
         \<and> parse_blocks ''#list\<newline>- a\<newline>- b\<newline>#end''
             = Inr ([Node [1] (Document Map.empty), Node [] (ListBlock [''a'', ''b''])], 0)
         \<and> parse_blocks ''#list\<newline>x''
             = Inl (ParseError (''Line 2: list items must start with '' @ [CHR 0x27] @ ''- ''
                      @ [CHR 0x27]))"
proof (intro conjI)
  from assms
  show "handle_text line lineno st =
           (if startswith line ''- ''
            then Inr \<lparr>heap = (heap st)[last (stack st) :=
                          Node (children (heap st ! last (stack st)))
                            (ListBlock (items (variant (heap st ! last (stack st))) @ [drop 2 line]))],
                      stack = stack st\<rparr>
            else Inl (ParseError (''Line '' @ str_nat lineno @ '': list items must start with ''
                        @ [CHR 0x27] @ ''- '' @ [CHR 0x27])))"
    by (simp add: handle_text_def line_msg_def append_item_def)
  show "parse_blocks ''#list\<newline>- a\<newline>- b\<newline>#end''
          = Inr ([Node [1] (Document Map.empty), Node [] (ListBlock [''a'', ''b''])], 0)"
    by (simp add: eval_defs)
  show "parse_blocks ''#list\<newline>x''
          = Inl (ParseError (''Line 2: list items must start with '' @ [CHR 0x27] @ ''- ''
                   @ [CHR 0x27]))"
    by (simp add: eval_defs)
qed

theorem list_item_lines_witness:
  "stack \<lparr>heap = [Node [1] (Document Map.empty), Node [] (ListBlock [''a''])], stack = [0, 1]\<rparr> \<noteq> []
   \<and> is_ListBlock (variant ([Node [1] (Document Map.empty), Node [] (ListBlock [''a''])] ! 1))
   \<and> strip ''- b'' \<noteq> []
   \<and> handle_text ''- b'' 3
        \<lparr>heap = [Node [1] (Document Map.empty), Node [] (ListBlock [''a''])], stack = [0, 1]\<rparr>
      = Inr \<lparr>heap = [Node [1] (Document Map.empty), Node [] (ListBlock [''a'', ''b''])],
               stack = [0, 1]\<rparr>"
  using list_item_lines [of
      "\<lparr>heap = [Node [1] (Document Map.empty), Node [] (ListBlock [''a''])], stack = [0, 1]\<rparr>"
      "''- b''" 3]
  by (simp add: strip_def rstrip_def isspace_def startswith_def)

text \<open>
  Claim C6.  A directive whose command word is not \<^verbatim>\<open>end\<close>, not \<^verbatim>\<open>s\<close> followed by digits
  and none of \<^verbatim>\<open>list\<close>, \<^verbatim>\<open>def\<close>, \<^verbatim>\<open>thm\<close> is a metadata assignment exactly when the top of
  the stack is the Document: it then stores the argument under the command word in the
  metadata of the Document, replacing what was stored under that key, and changes nothing
  else.  With any other node on top it fails with \<^verbatim>\<open>Line n: unknown command #cmd\<close>.  So
  \<^verbatim>\<open>#author Jane\<close> before any Section sets \<open>author\<close> to \<open>Jane\<close>, a second \<^verbatim>\<open>#author Joe\<close>
  replaces it, and \<^verbatim>\<open>#author Jane\<close> after \<^verbatim>\<open>#s1 Intro\<close> fails at its line.
\<close>

theorem metadata_directive:
  assumes "startswith line ''#''" and "stack st \<noteq> []"
    and "cmd_of (split1 line) = cmd" and "arg_of (split1 line) = arg"
    and "cmd \<noteq> ''end''" and "\<not> (startswith cmd ''s'' \<and> isdigit (drop 1 cmd))"
    and "cmd \<noteq> ''list''" and "cmd \<noteq> ''def''" and "cmd \<noteq> ''thm''"
  shows "handle_command line lineno st =
           (if is_Document (variant (heap st ! last (stack st)))
            then Inr \<lparr>heap = (heap st)[last (stack st) :=
                          Node (children (heap st ! last (stack st)))
                            (Document ((metadata (variant (heap st ! last (stack st))))(cmd \<mapsto> arg)))],
                      stack = stack st\<rparr>
            else Inl (ParseError (''Line '' @ str_nat lineno @ '': unknown command #'' @ cmd)))
         \<and> parse_blocks ''#author Jane''
             = Inr ([Node [] (Document [''author'' \<mapsto> ''Jane''])], 0)
         \<and> parse_blocks ''#author Jane\<newline>#author Joe''
             = Inr ([Node [] (Document [''author'' \<mapsto> ''Joe''])], 0)
         \<and> parse_blocks ''#s1 Intro\<newline>#author Jane''
             = Inl (ParseError ''Line 2: unknown command #author'')"
proof (intro conjI)
  from assms split1_directive [OF assms(1)]
  show "handle_command line lineno st =
           (if is_Document (variant (heap st ! last (stack st)))
            then Inr \<lparr>heap = (heap st)[last (stack st) :=
                          Node (children (heap st ! last (stack st)))
                            (Document ((metadata (variant (heap st ! last (stack st))))(cmd \<mapsto> arg)))],
                      stack = stack st\<rparr>
            else Inl (ParseError (''Line '' @ str_nat lineno @ '': unknown command #'' @ cmd)))"
    by (auto simp: handle_command_def line_msg_def set_metadata_def Let_def)
  show "parse_blocks ''#author Jane''
          = Inr ([Node [] (Document [''author'' \<mapsto> ''Jane''])], 0)"
    by (simp add: eval_defs)
  show "parse_blocks ''#author Jane\<newline>#author Joe''
          = Inr ([Node [] (Document [''author'' \<mapsto> ''Joe''])], 0)"
    by (simp add: eval_defs)
  show "parse_blocks ''#s1 Intro\<newline>#author Jane''
          = Inl (ParseError ''Line 2: unknown command #author'')"
    by (simp add: eval_defs)
qed

theorem metadata_directive_witness:
  "startswith ''#author Jane'' ''#'' \<and> stack init_state \<noteq> []
   \<and> cmd_of (split1 ''#author Jane'') = ''author'' \<and> arg_of (split1 ''#author Jane'') = ''Jane''
   \<and> ''author'' \<noteq> ''end'' \<and> \<not> (startswith ''author'' ''s'' \<and> isdigit (drop 1 ''author''))
   \<and> ''author'' \<noteq> ''list'' \<and> ''author'' \<noteq> ''def'' \<and> ''author'' \<noteq> ''thm''
   \<and> handle_command ''#author Jane'' 1 init_state
      = Inr \<lparr>heap = [Node [] (Document [''author'' \<mapsto> ''Jane''])], stack = [0]\<rparr>"
  using metadata_directive [of "''#author Jane''" init_state "''author''" "''Jane''" 1]
  by (simp add: startswith_def cmd_of_def arg_of_def split1_def isspace_def init_state_unfold doc_def)

subsection \<open>The Document at the bottom of the stack\<close>

lemma parse_line_no_IndexError:
  assumes "stack st \<noteq> []"
  shows "parse_line raw n st \<noteq> Inl IndexError"
proof (cases "startswith (rstrip raw) ''#''")
  case True
  from split1_directive [OF True] assms show ?thesis
    by (auto simp: parse_line_def True handle_command_def Let_def line_msg_def py_int_def
        split: sum.splits)
next
  case False
  with assms show ?thesis
    by (auto simp: parse_line_def handle_text_def Let_def line_msg_def)
qed

lemma parse_lines_no_IndexError:
  "stack_ok st \<Longrightarrow> parse_lines n ls st \<noteq> Inl IndexError"
proof (induction ls arbitrary: n st)
  case Nil
  then show ?case by simp
next
  case (Cons raw ls)
  from Cons.prems have "parse_line raw n st \<noteq> Inl IndexError"
    by (intro parse_line_no_IndexError) (simp add: stack_ok_def)
  with Cons show ?case
    by (auto split: sum.splits dest: parse_line_stack_ok)
qed

text \<open>
  Claim C10.  After any number of lines (\<open>lines\<close> is any list of lines, so any prefix of an
  input) the stack is not empty, its bottom element is the address \<^term>\<open>doc\<close> of the Document
  that \<^verbatim>\<open>parse_blocks\<close> allocated first, that address occurs nowhere else in the stack, every
  address of the stack is allocated, and the object at \<^term>\<open>doc\<close> is the only Document of the
  heap.  No step and no parse ends in the \<^verbatim>\<open>IndexError\<close> that \<^verbatim>\<open>stack[-1]\<close> and \<^verbatim>\<open>parts[0]\<close>
  raise on an empty list.  On success \<^verbatim>\<open>parse_blocks\<close> returns that bottom element, and
  it is a Document.
\<close>

theorem document_stays_at_bottom:
  "(\<forall>st. parse_lines n lines init_state = Inr st \<longrightarrow>
       stack st \<noteq> [] \<and> hd (stack st) = doc \<and> doc \<notin> set (tl (stack st)) \<and>
       (\<forall>a\<in>set (stack st). a < length (heap st)) \<and>
       (\<forall>a<length (heap st). is_Document (variant (heap st ! a)) \<longleftrightarrow> a = doc))
   \<and> parse_lines n lines init_state \<noteq> Inl IndexError
   \<and> parse_blocks source \<noteq> Inl IndexError
   \<and> (\<forall>h r. parse_blocks source = Inr (h, r) \<longrightarrow>
         r = doc \<and> is_Document (variant (h ! r)) \<and>
         (\<exists>st. run_lines source = Inr st \<and> h = heap st \<and> hd (stack st) = r))"
proof (intro conjI)
  show "\<forall>st. parse_lines n lines init_state = Inr st \<longrightarrow>
       stack st \<noteq> [] \<and> hd (stack st) = doc \<and> doc \<notin> set (tl (stack st)) \<and>
       (\<forall>a\<in>set (stack st). a < length (heap st)) \<and>
       (\<forall>a<length (heap st). is_Document (variant (heap st ! a)) \<longleftrightarrow> a = doc)"
  proof (intro allI impI)
    fix st assume "parse_lines n lines init_state = Inr st"
    then have "stack_ok st" using stack_ok_init by (rule parse_lines_stack_ok)
    then show "stack st \<noteq> [] \<and> hd (stack st) = doc \<and> doc \<notin> set (tl (stack st)) \<and>
       (\<forall>a\<in>set (stack st). a < length (heap st)) \<and>
       (\<forall>a<length (heap st). is_Document (variant (heap st ! a)) \<longleftrightarrow> a = doc)"
      by (simp add: stack_ok_def)
  qed
  show "parse_lines n lines init_state \<noteq> Inl IndexError"
    using stack_ok_init by (rule parse_lines_no_IndexError)
  have "run_lines source \<noteq> Inl IndexError"
    unfolding run_lines_def using stack_ok_init by (rule parse_lines_no_IndexError)
  then show "parse_blocks source \<noteq> Inl IndexError"
    by (auto simp: parse_blocks_unfold split: sum.splits)
  show "\<forall>h r. parse_blocks source = Inr (h, r) \<longrightarrow>
         r = doc \<and> is_Document (variant (h ! r)) \<and>
         (\<exists>st. run_lines source = Inr st \<and> h = heap st \<and> hd (stack st) = r)"
  proof (intro allI impI)
    fix h r assume ok: "parse_blocks source = Inr (h, r)"
    then obtain st where st: "run_lines source = Inr st" "h = heap st" "r = doc"
      by (auto simp: parse_blocks_unfold split: sum.splits if_splits)
    from st(1) have "stack_ok st"
      unfolding run_lines_def using stack_ok_init by (rule parse_lines_stack_ok)
    with st show "r = doc \<and> is_Document (variant (h ! r)) \<and>
         (\<exists>st. run_lines source = Inr st \<and> h = heap st \<and> hd (stack st) = r)"
      by (auto simp: stack_ok_def stack_ok_top)
  qed
qed

theorem document_stays_at_bottom_witness:
  "parse_lines 1 [''#s1 A'', ''#def T''] init_state
     = Inr \<lparr>heap = [Node [1] (Document Map.empty), Node [2] (Section 1 ''A''),
                     Node [] (Definition ''T'')], stack = [0, 1, 2]\<rparr>
   \<and> hd [0, 1, 2] = doc \<and> doc \<notin> set (tl [0, 1, 2 :: nat])
   \<and> parse_blocks ''#s1 A\<newline>text''
     = Inr ([Node [1] (Document Map.empty), Node [2] (Section 1 ''A''),
             Node [] (Paragraph ''text'')], doc)
   \<and> is_Document (variant ([Node [1] (Document Map.empty), Node [2] (Section 1 ''A''),
             Node [] (Paragraph ''text'')] ! doc))"
  using document_stays_at_bottom [of 1 "[''#s1 A'', ''#def T'']" "''#s1 A\<newline>text''"]
  by (simp add: eval_defs)

subsection \<open>Section levels, ListBlock children and the order of open Sections\<close>

lemma init_invariants:
  "levels_nonneg (heap init_state)" "no_para_in_list (heap init_state)"
  "sections_ordered (heap init_state) (stack init_state)"
  by (simp_all add: levels_nonneg_def no_para_in_list_def sections_ordered_def init_state_unfold)

text \<open>
  Claim C8 says that every Section has a level of at least 1.  The code compares the level
  with nothing: \<^verbatim>\<open>#s0 t\<close> opens a Section of level 0, and the parse succeeds.
\<close>

theorem section_level_zero:
  "parse_blocks ''#s0 t''
     = Inr ([Node [1] (Document Map.empty), Node [] (Section 0 ''t'')], 0)
   \<and> is_Section (variant ([Node [1] (Document Map.empty), Node [] (Section 0 ''t'')] ! 1))
   \<and> \<not> 1 \<le> level (variant ([Node [1] (Document Map.empty), Node [] (Section 0 ''t'')] ! 1))"
  by (simp add: eval_defs)

text \<open>
  Claim C8, as the code has it.  The level of a Section is the value of the digits of its
  directive, so it is an integer that is not negative: after any number of lines, and in
  every tree that \<^verbatim>\<open>parse_blocks\<close> returns, every Section has a level of at least 0.
\<close>

theorem section_levels_nonneg:
  "(\<forall>st. parse_lines n lines init_state = Inr st \<longrightarrow>
      (\<forall>a<length (heap st). is_Section (variant (heap st ! a))
          \<longrightarrow> 0 \<le> level (variant (heap st ! a))))
   \<and> (\<forall>h r. parse_blocks source = Inr (h, r) \<longrightarrow>
      (\<forall>a<length h. is_Section (variant (h ! a)) \<longrightarrow> 0 \<le> level (variant (h ! a))))"
proof (intro conjI)
  show "\<forall>st. parse_lines n lines init_state = Inr st \<longrightarrow>
      (\<forall>a<length (heap st). is_Section (variant (heap st ! a))
          \<longrightarrow> 0 \<le> level (variant (heap st ! a)))"
    using parse_lines_levels_nonneg [OF _ init_invariants(1)]
    by (simp add: levels_nonneg_def)
  show "\<forall>h r. parse_blocks source = Inr (h, r) \<longrightarrow>
      (\<forall>a<length h. is_Section (variant (h ! a)) \<longrightarrow> 0 \<le> level (variant (h ! a)))"
  proof (intro allI impI)
    fix h r a
    assume ok: "parse_blocks source = Inr (h, r)" and a: "a < length h"
      and s: "is_Section (variant (h ! a))"
    from ok obtain st where st: "run_lines source = Inr st" "h = heap st"
      by (auto simp: parse_blocks_unfold split: sum.splits if_splits)
    from st(1) have "levels_nonneg (heap st)"
      unfolding run_lines_def using init_invariants(1) by (rule parse_lines_levels_nonneg)
    with st(2) a s show "0 \<le> level (variant (h ! a))" by (simp add: levels_nonneg_def)
  qed
qed

theorem section_levels_nonneg_witness:
  "parse_blocks ''#s0 t\<newline>#s2 u'' = Inr ([Node [1] (Document Map.empty), Node [2] (Section 0 ''t''),
                    Node [] (Section 2 ''u'')], 0)
   \<and> is_Section (variant ([Node [1] (Document Map.empty), Node [2] (Section 0 ''t''),
                    Node [] (Section 2 ''u'')] ! 2))
   \<and> 0 \<le> level (variant ([Node [1] (Document Map.empty), Node [2] (Section 0 ''t''),
                    Node [] (Section 2 ''u'')] ! 2))"
proof -
  have p: "parse_blocks ''#s0 t\<newline>#s2 u'' = Inr ([Node [1] (Document Map.empty), Node [2] (Section 0 ''t''),
                    Node [] (Section 2 ''u'')], 0)"
    by (simp add: eval_defs)
  have s: "is_Section (variant ([Node [1] (Document Map.empty), Node [2] (Section 0 ''t''),
                    Node [] (Section 2 ''u'')] ! 2))"
    by simp
  from section_levels_nonneg [of 1 "[]" "''#s0 t\<newline>#s2 u''"] p
  have "\<forall>a<length [Node [1] (Document Map.empty), Node [2] (Section 0 ''t''),
                    Node [] (Section 2 ''u'')].
        is_Section (variant ([Node [1] (Document Map.empty), Node [2] (Section 0 ''t''),
                    Node [] (Section 2 ''u'')] ! a))
        \<longrightarrow> 0 \<le> level (variant ([Node [1] (Document Map.empty), Node [2] (Section 0 ''t''),
                    Node [] (Section 2 ''u'')] ! a))"
    by blast
  from this [rule_format, of 2] s have "0 \<le> level (variant ([Node [1] (Document Map.empty), Node [2] (Section 0 ''t''),
                    Node [] (Section 2 ''u'')] ! 2))"
    by simp
  with p s show ?thesis by blast
qed

text \<open>
  Claim C7 says that a ListBlock of a returned tree has no child.  The openers \<^verbatim>\<open>list\<close>,
  \<^verbatim>\<open>def\<close>, \<^verbatim>\<open>thm\<close> and the Section directives append the node they create to the top of the
  stack whatever its class, so \<^verbatim>\<open>#list\<close>, \<^verbatim>\<open>#def X\<close>, \<^verbatim>\<open>#end\<close>, \<^verbatim>\<open>#end\<close> returns a ListBlock
  whose child is a Definition.
\<close>

theorem listblock_with_child:
  "parse_blocks ''#list\<newline>#def X\<newline>#end\<newline>#end''
     = Inr ([Node [1] (Document Map.empty), Node [2] (ListBlock []), Node [] (Definition ''X'')], 0)
   \<and> is_ListBlock (variant ([Node [1] (Document Map.empty), Node [2] (ListBlock []),
                              Node [] (Definition ''X'')] ! 1))
   \<and> children ([Node [1] (Document Map.empty), Node [2] (ListBlock []),
                 Node [] (Definition ''X'')] ! 1) \<noteq> []"
  by (simp add: eval_defs)

text \<open>The Section directive with decimal digits that \<^verbatim>\<open>int\<close> converts.\<close>

lemma handle_command_section:
  assumes "startswith line ''#''" "cmd_of (split1 line) = CHR ''s'' # ds" "ds \<noteq> []"
    "list_all is_ascii_digit ds" "length ds \<le> max_str_digits" "stack st \<noteq> []"
  shows "handle_command line lineno st =
     Inr (open_node (Section (decimal ds) (arg_of (split1 line)))
            (st\<lparr>stack := pop_sections (heap st) (decimal ds) (stack st)\<rparr>))"
proof -
  from assms(4) have "list_all isdigit_char ds"
    by (simp add: list_all_iff isdigit_char_def)
  with assms(3) have d: "isdigit ds" by (simp add: isdigit_def)
  from assms(3,4,5) have i: "py_int ds = Inr (decimal ds)" by (simp add: py_int_def)
  from split1_directive [OF assms(1)] assms(2,6) d i show ?thesis
    by (simp add: handle_command_def Let_def startswith_def)
qed

text \<open>The Section directive with more digits than \<^verbatim>\<open>int\<close> converts: a \<^verbatim>\<open>ValueError\<close>.\<close>

lemma handle_command_section_too_long:
  assumes "startswith line ''#''" "cmd_of (split1 line) = CHR ''s'' # ds" "isdigit ds"
    "max_str_digits < length ds" "stack st \<noteq> []"
  shows "handle_command line lineno st = Inl ValueError"
proof -
  from assms(4) have i: "py_int ds = Inl ValueError" by (simp add: py_int_def)
  from split1_directive [OF assms(1)] assms(2,3,5) i show ?thesis
    by (simp add: handle_command_def Let_def startswith_def)
qed

text \<open>The loop of the Section directive pops nothing when the top is not a Section.\<close>

lemma pop_sections_not_section:
  "\<not> is_Section (variant (h ! last stk)) \<Longrightarrow> pop_sections h lv stk = stk"
  by (subst pop_sections.simps) simp

lemma open_node_explicit:
  "last (stack st) < length (heap st) \<Longrightarrow>
   open_node v st =
     \<lparr>heap = (heap st @ [Node [] v])
               [last (stack st) :=
                  Node (children (heap st ! last (stack st)) @ [length (heap st)])
                       (variant (heap st ! last (stack st)))],
      stack = stack st @ [length (heap st)]\<rparr>"
  by (simp add: open_node_def Let_def append_child_def nth_append)

text \<open>
  Claim C7, as the code has it.  A prose line never becomes a child of a ListBlock: after
  any number of lines, and in every tree that \<^verbatim>\<open>parse_blocks\<close> returns, every child of a
  ListBlock is an allocated node and no child of a ListBlock is a Paragraph.  The opening
  directives do give a ListBlock children: whenever the top of the stack is a ListBlock,
  each of \<^verbatim>\<open>list\<close>, \<^verbatim>\<open>def\<close>, \<^verbatim>\<open>thm\<close> and \<^verbatim>\<open>s\<close> followed by decimal digits (at most 4300 of
  them) pops nothing, allocates the node it creates, appends it to the children of that
  ListBlock and pushes it.
\<close>

theorem listblock_has_no_paragraph_child:
  "(\<forall>st. parse_lines n lines init_state = Inr st \<longrightarrow>
      (\<forall>a<length (heap st). is_ListBlock (variant (heap st ! a)) \<longrightarrow>
         (\<forall>c\<in>set (children (heap st ! a)).
             c < length (heap st) \<and> \<not> is_Paragraph (variant (heap st ! c)))))
   \<and> (\<forall>h r. parse_blocks source = Inr (h, r) \<longrightarrow>
      (\<forall>a<length h. is_ListBlock (variant (h ! a)) \<longrightarrow>
         (\<forall>c\<in>set (children (h ! a)). c < length h \<and> \<not> is_Paragraph (variant (h ! c)))))
   \<and> (\<forall>st line lineno v.
       startswith line ''#'' \<and> stack st \<noteq> [] \<and> last (stack st) < length (heap st) \<and>
       is_ListBlock (variant (heap st ! last (stack st))) \<and>
       (cmd_of (split1 line) = ''list'' \<and> v = ListBlock [] \<or>
        cmd_of (split1 line) = ''def'' \<and> v = Definition (arg_of (split1 line)) \<or>
        cmd_of (split1 line) = ''thm'' \<and> v = Theorem (arg_of (split1 line)) \<or>
        (\<exists>ds. cmd_of (split1 line) = CHR ''s'' # ds \<and> ds \<noteq> [] \<and>
              list_all is_ascii_digit ds \<and> length ds \<le> max_str_digits \<and>
              v = Section (decimal ds) (arg_of (split1 line)))) \<longrightarrow>
       handle_command line lineno st =
         Inr \<lparr>heap = (heap st @ [Node [] v])
                       [last (stack st) :=
                          Node (children (heap st ! last (stack st)) @ [length (heap st)])
                               (variant (heap st ! last (stack st)))],
               stack = stack st @ [length (heap st)]\<rparr>)"
proof (intro conjI)
  show "\<forall>st. parse_lines n lines init_state = Inr st \<longrightarrow>
      (\<forall>a<length (heap st). is_ListBlock (variant (heap st ! a)) \<longrightarrow>
         (\<forall>c\<in>set (children (heap st ! a)).
             c < length (heap st) \<and> \<not> is_Paragraph (variant (heap st ! c))))"
    using parse_lines_no_para [OF _ stack_ok_init init_invariants(2)]
    by (simp add: no_para_in_list_def)
  show "\<forall>h r. parse_blocks source = Inr (h, r) \<longrightarrow>
      (\<forall>a<length h. is_ListBlock (variant (h ! a)) \<longrightarrow>
         (\<forall>c\<in>set (children (h ! a)). c < length h \<and> \<not> is_Paragraph (variant (h ! c))))"
  proof (intro allI impI)
    fix h r a
    assume ok: "parse_blocks source = Inr (h, r)" and a: "a < length h"
      and l: "is_ListBlock (variant (h ! a))"
    from ok obtain st where st: "run_lines source = Inr st" "h = heap st"
      by (auto simp: parse_blocks_unfold split: sum.splits if_splits)
    from st(1) have "no_para_in_list (heap st)"
      unfolding run_lines_def using stack_ok_init init_invariants(2)
      by (rule parse_lines_no_para)
    with st(2) a l
    show "\<forall>c\<in>set (children (h ! a)). c < length h \<and> \<not> is_Paragraph (variant (h ! c))"
      by (simp add: no_para_in_list_def)
  qed
  show "(\<forall>st line lineno v.
       startswith line ''#'' \<and> stack st \<noteq> [] \<and> last (stack st) < length (heap st) \<and>
       is_ListBlock (variant (heap st ! last (stack st))) \<and>
       (cmd_of (split1 line) = ''list'' \<and> v = ListBlock [] \<or>
        cmd_of (split1 line) = ''def'' \<and> v = Definition (arg_of (split1 line)) \<or>
        cmd_of (split1 line) = ''thm'' \<and> v = Theorem (arg_of (split1 line)) \<or>
        (\<exists>ds. cmd_of (split1 line) = CHR ''s'' # ds \<and> ds \<noteq> [] \<and>
              list_all is_ascii_digit ds \<and> length ds \<le> max_str_digits \<and>
              v = Section (decimal ds) (arg_of (split1 line)))) \<longrightarrow>
       handle_command line lineno st =
         Inr \<lparr>heap = (heap st @ [Node [] v])
                       [last (stack st) :=
                          Node (children (heap st ! last (stack st)) @ [length (heap st)])
                               (variant (heap st ! last (stack st)))],
               stack = stack st @ [length (heap st)]\<rparr>)"
  proof (intro allI impI)
    fix st :: pstate and line lineno v
    assume a: "startswith line ''#'' \<and> stack st \<noteq> [] \<and> last (stack st) < length (heap st) \<and>
       is_ListBlock (variant (heap st ! last (stack st))) \<and>
       (cmd_of (split1 line) = ''list'' \<and> v = ListBlock [] \<or>
        cmd_of (split1 line) = ''def'' \<and> v = Definition (arg_of (split1 line)) \<or>
        cmd_of (split1 line) = ''thm'' \<and> v = Theorem (arg_of (split1 line)) \<or>
        (\<exists>ds. cmd_of (split1 line) = CHR ''s'' # ds \<and> ds \<noteq> [] \<and>
              list_all is_ascii_digit ds \<and> length ds \<le> max_str_digits \<and>
              v = Section (decimal ds) (arg_of (split1 line))))"
    then have dir: "startswith line ''#''" and ne: "stack st \<noteq> []"
      and top: "last (stack st) < length (heap st)"
      and lb: "is_ListBlock (variant (heap st ! last (stack st)))"
      by simp_all
    from split1_directive [OF dir] have parts: "split1 line \<noteq> []" .
    from lb have ns: "\<not> is_Section (variant (heap st ! last (stack st)))"
      by (cases "variant (heap st ! last (stack st))") simp_all
    from a consider
        (l) "cmd_of (split1 line) = ''list''" "v = ListBlock []"
      | (d) "cmd_of (split1 line) = ''def''" "v = Definition (arg_of (split1 line))"
      | (t) "cmd_of (split1 line) = ''thm''" "v = Theorem (arg_of (split1 line))"
      | (s) ds where "cmd_of (split1 line) = CHR ''s'' # ds" "ds \<noteq> []"
          "list_all is_ascii_digit ds" "length ds \<le> max_str_digits"
          "v = Section (decimal ds) (arg_of (split1 line))"
      by blast
    then have "handle_command line lineno st = Inr (open_node v st)"
    proof cases
      case l
      with parts ne show ?thesis
        by (simp add: handle_command_def Let_def startswith_def)
    next
      case d
      with parts ne show ?thesis
        by (simp add: handle_command_def Let_def startswith_def)
    next
      case t
      with parts ne show ?thesis
        by (simp add: handle_command_def Let_def startswith_def)
    next
      case (s ds)
      from handle_command_section [OF dir s(1-4) ne, of lineno] s(5)
      show ?thesis by (simp add: pop_sections_not_section [OF ns])
    qed
    with open_node_explicit [OF top, of v]
    show "handle_command line lineno st =
         Inr \<lparr>heap = (heap st @ [Node [] v])
                       [last (stack st) :=
                          Node (children (heap st ! last (stack st)) @ [length (heap st)])
                               (variant (heap st ! last (stack st)))],
               stack = stack st @ [length (heap st)]\<rparr>"
      by simp
  qed
qed

theorem listblock_has_no_paragraph_child_witness:
  "parse_blocks ''#list\<newline>#def X\<newline>prose\<newline>#end\<newline>- item\<newline>#end''
     = Inr ([Node [1] (Document Map.empty), Node [2] (ListBlock [''item'']),
             Node [3] (Definition ''X''), Node [] (Paragraph ''prose'')], 0)
   \<and> is_ListBlock (variant ([Node [1] (Document Map.empty), Node [2] (ListBlock [''item'']),
             Node [3] (Definition ''X''), Node [] (Paragraph ''prose'')] ! 1))
   \<and> 2 \<in> set (children ([Node [1] (Document Map.empty), Node [2] (ListBlock [''item'']),
             Node [3] (Definition ''X''), Node [] (Paragraph ''prose'')] ! 1))
   \<and> \<not> is_Paragraph (variant ([Node [1] (Document Map.empty), Node [2] (ListBlock [''item'']),
             Node [3] (Definition ''X''), Node [] (Paragraph ''prose'')] ! 2))
   \<and> startswith ''#thm T'' ''#''
   \<and> is_ListBlock (variant ([Node [1] (Document Map.empty), Node [] (ListBlock [''a''])] ! 1))
   \<and> cmd_of (split1 ''#thm T'') = ''thm''
   \<and> handle_command ''#thm T'' 3
        \<lparr>heap = [Node [1] (Document Map.empty), Node [] (ListBlock [''a''])], stack = [0, 1]\<rparr>
      = Inr \<lparr>heap = [Node [1] (Document Map.empty), Node [2] (ListBlock [''a'']),
                      Node [] (Theorem ''T'')],
              stack = [0, 1, 2]\<rparr>"
proof -
  have p: "parse_blocks ''#list\<newline>#def X\<newline>prose\<newline>#end\<newline>- item\<newline>#end''
     = Inr ([Node [1] (Document Map.empty), Node [2] (ListBlock [''item'']),
             Node [3] (Definition ''X''), Node [] (Paragraph ''prose'')], 0)"
    by (simp add: eval_defs)
  have l: "is_ListBlock (variant ([Node [1] (Document Map.empty), Node [2] (ListBlock [''item'']),
             Node [3] (Definition ''X''), Node [] (Paragraph ''prose'')] ! 1))"
    and c: "2 \<in> set (children ([Node [1] (Document Map.empty), Node [2] (ListBlock [''item'']),
             Node [3] (Definition ''X''), Node [] (Paragraph ''prose'')] ! 1))"
    by simp_all
  from listblock_has_no_paragraph_child
         [of 1 "[]" "''#list\<newline>#def X\<newline>prose\<newline>#end\<newline>- item\<newline>#end''",
          THEN conjunct2, THEN conjunct1] p
  have "\<forall>a<length [Node [1] (Document Map.empty), Node [2] (ListBlock [''item'']),
             Node [3] (Definition ''X''), Node [] (Paragraph ''prose'')].
         is_ListBlock (variant ([Node [1] (Document Map.empty), Node [2] (ListBlock [''item'']),
             Node [3] (Definition ''X''), Node [] (Paragraph ''prose'')] ! a)) \<longrightarrow>
         (\<forall>c\<in>set (children ([Node [1] (Document Map.empty), Node [2] (ListBlock [''item'']),
             Node [3] (Definition ''X''), Node [] (Paragraph ''prose'')] ! a)).
           c < length [Node [1] (Document Map.empty), Node [2] (ListBlock [''item'']),
             Node [3] (Definition ''X''), Node [] (Paragraph ''prose'')] \<and>
           \<not> is_Paragraph (variant ([Node [1] (Document Map.empty), Node [2] (ListBlock [''item'']),
             Node [3] (Definition ''X''), Node [] (Paragraph ''prose'')] ! c)))"
    by blast
  from this [rule_format, of 1 2] l c
  have np: "\<not> is_Paragraph (variant ([Node [1] (Document Map.empty), Node [2] (ListBlock [''item'']),
             Node [3] (Definition ''X''), Node [] (Paragraph ''prose'')] ! 2))"
    by simp
  have d: "startswith ''#thm T'' ''#''"
    and lb: "is_ListBlock (variant ([Node [1] (Document Map.empty), Node [] (ListBlock [''a''])] ! 1))"
    and cmd: "cmd_of (split1 ''#thm T'') = ''thm''"
    and arg: "arg_of (split1 ''#thm T'') = ''T''"
    by (simp_all add: startswith_def cmd_of_def arg_of_def split1_def isspace_def)
  from listblock_has_no_paragraph_child
         [of 1 "[]" "[]", THEN conjunct2, THEN conjunct2, rule_format,
          of "''#thm T''"
             "\<lparr>heap = [Node [1] (Document Map.empty), Node [] (ListBlock [''a''])], stack = [0, 1]\<rparr>"
             "Theorem ''T''" 3]
       d lb cmd arg
  have h: "handle_command ''#thm T'' 3
        \<lparr>heap = [Node [1] (Document Map.empty), Node [] (ListBlock [''a''])], stack = [0, 1]\<rparr>
      = Inr \<lparr>heap = [Node [1] (Document Map.empty), Node [2] (ListBlock [''a'']),
                      Node [] (Theorem ''T'')],
              stack = [0, 1, 2]\<rparr>"
    by simp
  from p l c np d lb cmd h show ?thesis by (intro conjI)
qed

text \<open>
  Claim C2 says that an open Section has no open Section of its level or more anywhere
  beneath it in the stack.  The loop of the Section directive stops at a node that is not
  a Section, so across an open Definition, Theorem or ListBlock the levels are not
  ordered: after \<^verbatim>\<open>#s3 a\<close>, \<^verbatim>\<open>#def d\<close>, \<^verbatim>\<open>#s1 b\<close> the stack holds the Section of level 3
  beneath the Section of level 1.
\<close>

theorem sections_across_container:
  "run_lines ''#s3 a\<newline>#def d\<newline>#s1 b''
     = Inr \<lparr>heap = [Node [1] (Document Map.empty), Node [2] (Section 3 ''a''),
                     Node [3] (Definition ''d''), Node [] (Section 1 ''b'')],
             stack = [0, 1, 2, 3]\<rparr>
   \<and> \<not> strictly_level_ordered
         [Node [1] (Document Map.empty), Node [2] (Section 3 ''a''),
          Node [3] (Definition ''d''), Node [] (Section 1 ''b'')] [0, 1, 2, 3]"
proof
  show "run_lines ''#s3 a\<newline>#def d\<newline>#s1 b''
     = Inr \<lparr>heap = [Node [1] (Document Map.empty), Node [2] (Section 3 ''a''),
                     Node [3] (Definition ''d''), Node [] (Section 1 ''b'')],
             stack = [0, 1, 2, 3]\<rparr>"
    by (simp add: eval_defs)
  show "\<not> strictly_level_ordered
         [Node [1] (Document Map.empty), Node [2] (Section 3 ''a''),
          Node [3] (Definition ''d''), Node [] (Section 1 ''b'')] [0, 1, 2, 3]"
  proof
    assume "strictly_level_ordered
         [Node [1] (Document Map.empty), Node [2] (Section 3 ''a''),
          Node [3] (Definition ''d''), Node [] (Section 1 ''b'')] [0, 1, 2, 3]"
    from this [unfolded strictly_level_ordered_def, rule_format, of 3 1]
    show False by simp
  qed
qed

text \<open>
  Claim C2, as the code has it.  After any number of lines, two open Sections with nothing
  but Sections between them in the stack are ordered: the upper one has the greater level.
  So an open Section at level \<open>L\<close> has no open Section of level \<open>L\<close> or more beneath it down to
  the nearest open node that is not a Section.
\<close>

theorem open_sections_ordered:
  "\<forall>st. parse_lines n lines init_state = Inr st \<longrightarrow>
     (\<forall>i<length (stack st). \<forall>j<i.
        (\<forall>m. j \<le> m \<and> m \<le> i \<longrightarrow> is_Section (variant (heap st ! (stack st ! m)))) \<longrightarrow>
        level (variant (heap st ! (stack st ! j))) < level (variant (heap st ! (stack st ! i))))"
proof (intro allI impI)
  fix st i j
  assume run: "parse_lines n lines init_state = Inr st"
    and ij: "i < length (stack st)" "j < i"
    and secs: "\<forall>m. j \<le> m \<and> m \<le> i \<longrightarrow> is_Section (variant (heap st ! (stack st ! m)))"
  from run have "sections_ordered (heap st) (stack st)"
    using stack_ok_init init_invariants(3) by (rule parse_lines_sections_ordered)
  then have "level_ordered_runs (heap st) (stack st)" by (rule sections_ordered_runs)
  with ij secs
  show "level (variant (heap st ! (stack st ! j))) < level (variant (heap st ! (stack st ! i)))"
    unfolding level_ordered_runs_def by blast
qed

theorem open_sections_ordered_witness:
  "parse_lines 1 [''#s1 a'', ''#s3 b'', ''#s2 c'', ''#s4 d''] init_state
     = Inr \<lparr>heap = [Node [1] (Document Map.empty), Node [2, 3] (Section 1 ''a''),
                     Node [] (Section 3 ''b''), Node [4] (Section 2 ''c''),
                     Node [] (Section 4 ''d'')],
             stack = [0, 1, 3, 4]\<rparr>
   \<and> is_Section (variant ([Node [1] (Document Map.empty), Node [2, 3] (Section 1 ''a''),
                     Node [] (Section 3 ''b''), Node [4] (Section 2 ''c''),
                     Node [] (Section 4 ''d'')] ! ([0, 1, 3, 4] ! 1)))
   \<and> is_Section (variant ([Node [1] (Document Map.empty), Node [2, 3] (Section 1 ''a''),
                     Node [] (Section 3 ''b''), Node [4] (Section 2 ''c''),
                     Node [] (Section 4 ''d'')] ! ([0, 1, 3, 4] ! 2)))
   \<and> is_Section (variant ([Node [1] (Document Map.empty), Node [2, 3] (Section 1 ''a''),
                     Node [] (Section 3 ''b''), Node [4] (Section 2 ''c''),
                     Node [] (Section 4 ''d'')] ! ([0, 1, 3, 4] ! 3)))
   \<and> level (variant ([Node [1] (Document Map.empty), Node [2, 3] (Section 1 ''a''),
                     Node [] (Section 3 ''b''), Node [4] (Section 2 ''c''),
                     Node [] (Section 4 ''d'')] ! ([0, 1, 3, 4] ! 1)))
     < level (variant ([Node [1] (Document Map.empty), Node [2, 3] (Section 1 ''a''),
                     Node [] (Section 3 ''b''), Node [4] (Section 2 ''c''),
                     Node [] (Section 4 ''d'')] ! ([0, 1, 3, 4] ! 3)))"
proof -
  have p: "parse_lines 1 [''#s1 a'', ''#s3 b'', ''#s2 c'', ''#s4 d''] init_state
     = Inr \<lparr>heap = [Node [1] (Document Map.empty), Node [2, 3] (Section 1 ''a''),
                     Node [] (Section 3 ''b''), Node [4] (Section 2 ''c''),
                     Node [] (Section 4 ''d'')],
             stack = [0, 1, 3, 4]\<rparr>"
    by (simp add: eval_defs)
  have s1: "is_Section (variant ([Node [1] (Document Map.empty), Node [2, 3] (Section 1 ''a''),
                     Node [] (Section 3 ''b''), Node [4] (Section 2 ''c''),
                     Node [] (Section 4 ''d'')] ! ([0, 1, 3, 4] ! 1)))"
    and s2: "is_Section (variant ([Node [1] (Document Map.empty), Node [2, 3] (Section 1 ''a''),
                     Node [] (Section 3 ''b''), Node [4] (Section 2 ''c''),
                     Node [] (Section 4 ''d'')] ! ([0, 1, 3, 4] ! 2)))"
    and s3: "is_Section (variant ([Node [1] (Document Map.empty), Node [2, 3] (Section 1 ''a''),
                     Node [] (Section 3 ''b''), Node [4] (Section 2 ''c''),
                     Node [] (Section 4 ''d'')] ! ([0, 1, 3, 4] ! 3)))"
    by simp_all
  have s: "\<forall>m. 1 \<le> m \<and> m \<le> 3 \<longrightarrow>
         is_Section (variant ([Node [1] (Document Map.empty), Node [2, 3] (Section 1 ''a''),
                     Node [] (Section 3 ''b''), Node [4] (Section 2 ''c''),
                     Node [] (Section 4 ''d'')] ! ([0, 1, 3, 4] ! m)))"
  proof (intro allI impI)
    fix m :: nat assume "1 \<le> m \<and> m \<le> 3"
    then have "m = 1 \<or> m = 2 \<or> m = 3" by arith
    with s1 s2 s3 show "is_Section (variant ([Node [1] (Document Map.empty), Node [2, 3] (Section 1 ''a''),
                     Node [] (Section 3 ''b''), Node [4] (Section 2 ''c''),
                     Node [] (Section 4 ''d'')] ! ([0, 1, 3, 4] ! m)))"
      by blast
  qed
  from open_sections_ordered [of 1 "[''#s1 a'', ''#s3 b'', ''#s2 c'', ''#s4 d'']",
      rule_format, OF p, of 3 1] s
  have "level (variant ([Node [1] (Document Map.empty), Node [2, 3] (Section 1 ''a''),
                     Node [] (Section 3 ''b''), Node [4] (Section 2 ''c''),
                     Node [] (Section 4 ''d'')] ! ([0, 1, 3, 4] ! 1)))
     < level (variant ([Node [1] (Document Map.empty), Node [2, 3] (Section 1 ''a''),
                     Node [] (Section 3 ''b''), Node [4] (Section 2 ''c''),
                     Node [] (Section 4 ''d'')] ! ([0, 1, 3, 4] ! 3)))"
    by simp
  with p s1 s2 s3 show ?thesis by blast
qed

subsection \<open>Line numbers of the errors\<close>

lemma unclosed_no_line: "\<not> carries_line (ParseError ''Unclosed block at end of file'') n"
  by (simp add: carries_line_def startswith_def)


text \<open>
  Claim C5 says that every failure carries a line number, the one at the end of the input
  included.  The error that \<^verbatim>\<open>parse_blocks\<close> raises after the last line, when a ListBlock,
  Definition or Theorem is still open, has the message \<^verbatim>\<open>Unclosed block at end of file\<close>:
  it names the end of the file and no line.
\<close>

theorem unclosed_block_has_no_line:
  "parse_blocks ''#list'' = Inl (ParseError ''Unclosed block at end of file'')
   \<and> \<not> carries_line (ParseError ''Unclosed block at end of file'') (length (splitlines ''#list''))
   \<and> \<not> startswith ''Unclosed block at end of file'' ''Line ''"
  by (simp add: eval_defs carries_line_def)

text \<open>An error at a line ends the loop: it is the result of the loop.\<close>

lemma parse_lines_stops:
  "k < length ls \<Longrightarrow> parse_lines n (take k ls) st = Inr st' \<Longrightarrow>
   parse_line (ls ! k) (n + k) st' = Inl e \<Longrightarrow> parse_lines n ls st = Inl e"
proof (induction ls arbitrary: n k st)
  case Nil
  then show ?case by simp
next
  case (Cons raw ls)
  show ?case
  proof (cases k)
    case 0
    with Cons.prems show ?thesis by simp
  next
    case (Suc k')
    with Cons.prems obtain st1 where st1: "parse_line raw n st = Inr st1"
      "parse_lines (Suc n) (take k' ls) st1 = Inr st'"
      by (auto split: sum.splits)
    from Cons.prems Suc have "k' < length ls" "parse_line (ls ! k') (Suc n + k') st' = Inl e"
      by simp_all
    from Cons.IH [OF this(1) st1(2) this(2)] st1(1) show ?thesis by simp
  qed
qed

text \<open>
  Claim C5, as the code has it.  A \<^verbatim>\<open>ParseError\<close> that \<^verbatim>\<open>parse_blocks\<close> raises while it
  handles line \<open>k + 1\<close> (the lines before it were handled without error) has a message that
  starts with \<^verbatim>\<open>Line k+1: \<close>, and every \<^verbatim>\<open>ParseError\<close> that the handling of a line raises is
  the result of \<^verbatim>\<open>parse_blocks\<close>.  The only other \<^verbatim>\<open>ParseError\<close> is the one raised after the
  last line: whenever the loop ends without error and a ListBlock, Definition or Theorem is
  still on the stack above the Document, \<^verbatim>\<open>parse_blocks\<close> fails with the message
  \<^verbatim>\<open>Unclosed block at end of file\<close>, which carries no line number.
\<close>

theorem parse_error_line_number:
  "(\<forall>m. parse_blocks source = Inl (ParseError m) \<longrightarrow>
     (\<exists>k<length (splitlines source). \<exists>st.
         parse_lines 1 (take k (splitlines source)) init_state = Inr st \<and>
         parse_line (splitlines source ! k) (Suc k) st = Inl (ParseError m) \<and>
         carries_line (ParseError m) (Suc k))
     \<or> (m = ''Unclosed block at end of file'' \<and>
        (\<forall>n. \<not> carries_line (ParseError m) n) \<and>
        (\<exists>st. run_lines source = Inr st \<and>
              (\<exists>a\<in>set (tl (stack st)). is_explicit (variant (heap st ! a))))))
   \<and> (\<forall>k st m. k < length (splitlines source) \<and>
         parse_lines 1 (take k (splitlines source)) init_state = Inr st \<and>
         parse_line (splitlines source ! k) (Suc k) st = Inl (ParseError m) \<longrightarrow>
         parse_blocks source = Inl (ParseError m) \<and> carries_line (ParseError m) (Suc k))
   \<and> (\<forall>st. run_lines source = Inr st \<and>
         (\<exists>a\<in>set (tl (stack st)).
            is_ListBlock (variant (heap st ! a)) \<or> is_Definition (variant (heap st ! a)) \<or>
            is_Theorem (variant (heap st ! a))) \<longrightarrow>
         parse_blocks source = Inl (ParseError ''Unclosed block at end of file''))"
proof (intro conjI allI impI)
  fix m assume err: "parse_blocks source = Inl (ParseError m)"
  show "(\<exists>k<length (splitlines source). \<exists>st.
         parse_lines 1 (take k (splitlines source)) init_state = Inr st \<and>
         parse_line (splitlines source ! k) (Suc k) st = Inl (ParseError m) \<and>
         carries_line (ParseError m) (Suc k))
     \<or> (m = ''Unclosed block at end of file'' \<and>
        (\<forall>n. \<not> carries_line (ParseError m) n) \<and>
        (\<exists>st. run_lines source = Inr st \<and>
              (\<exists>a\<in>set (tl (stack st)). is_explicit (variant (heap st ! a)))))"
  proof (cases "run_lines source")
    case (Inl e)
    with err have e: "e = ParseError m" by (simp add: parse_blocks_unfold)
    from Inl [unfolded run_lines_def e, THEN parse_lines_error]
    obtain k st where k: "k < length (splitlines source)"
      "parse_lines 1 (take k (splitlines source)) init_state = Inr st"
      "parse_line (splitlines source ! k) (1 + k) st = Inl (ParseError m)"
      by blast
    from parse_line_error [OF k(3)] k show ?thesis by auto
  next
    case (Inr st)
    with err have "m = ''Unclosed block at end of file''"
      "\<exists>a\<in>set (tl (stack st)). is_explicit (variant (heap st ! a))"
      by (auto simp: parse_blocks_unfold list_ex_iff split: if_splits)
    with Inr unclosed_no_line show ?thesis by blast
  qed
next
  fix k st m
  assume a: "k < length (splitlines source) \<and>
         parse_lines 1 (take k (splitlines source)) init_state = Inr st \<and>
         parse_line (splitlines source ! k) (Suc k) st = Inl (ParseError m)"
  then have k: "k < length (splitlines source)"
    and run: "parse_lines 1 (take k (splitlines source)) init_state = Inr st"
    and err: "parse_line (splitlines source ! k) (1 + k) st = Inl (ParseError m)"
    by simp_all
  from parse_lines_stops [OF k run err]
  have "run_lines source = Inl (ParseError m)" by (simp only: run_lines_def)
  then show "parse_blocks source = Inl (ParseError m)" by (simp add: parse_blocks_unfold)
  from parse_line_error [OF err] show "carries_line (ParseError m) (Suc k)" by simp
next
  fix st
  assume "run_lines source = Inr st \<and>
         (\<exists>a\<in>set (tl (stack st)).
            is_ListBlock (variant (heap st ! a)) \<or> is_Definition (variant (heap st ! a)) \<or>
            is_Theorem (variant (heap st ! a)))"
  then have run: "run_lines source = Inr st"
    and "list_ex (\<lambda>a. is_explicit (variant (heap st ! a))) (tl (stack st))"
    by (auto simp: list_ex_iff is_explicit_def)
  then show "parse_blocks source = Inl (ParseError ''Unclosed block at end of file'')"
    by (simp add: parse_blocks_unfold)
qed

theorem parse_error_line_number_witness:
  "parse_blocks ''a\<newline>#end'' = Inl (ParseError ''Line 2: unexpected #end'')
   \<and> (\<exists>k<length (splitlines ''a\<newline>#end''). \<exists>st.
         parse_lines 1 (take k (splitlines ''a\<newline>#end'')) init_state = Inr st \<and>
         parse_line (splitlines ''a\<newline>#end'' ! k) (Suc k) st
           = Inl (ParseError ''Line 2: unexpected #end'') \<and>
         carries_line (ParseError ''Line 2: unexpected #end'') (Suc k))
   \<and> run_lines ''#s1 A\<newline>#thm T\<newline>text''
       = Inr \<lparr>heap = [Node [1] (Document Map.empty), Node [2] (Section 1 ''A''),
                       Node [3] (Theorem ''T''), Node [] (Paragraph ''text'')],
               stack = [0, 1, 2]\<rparr>
   \<and> 2 \<in> set (tl [0, 1, 2 :: nat])
   \<and> is_Theorem (variant ([Node [1] (Document Map.empty), Node [2] (Section 1 ''A''),
                       Node [3] (Theorem ''T''), Node [] (Paragraph ''text'')] ! 2))
   \<and> parse_blocks ''#s1 A\<newline>#thm T\<newline>text''
       = Inl (ParseError ''Unclosed block at end of file'')"
proof -
  have p: "parse_blocks ''a\<newline>#end'' = Inl (ParseError ''Line 2: unexpected #end'')"
    by (simp add: eval_defs)
  from parse_error_line_number [of "''a\<newline>#end''", THEN conjunct1, rule_format, OF p]
  have a: "\<exists>k<length (splitlines ''a\<newline>#end''). \<exists>st.
         parse_lines 1 (take k (splitlines ''a\<newline>#end'')) init_state = Inr st \<and>
         parse_line (splitlines ''a\<newline>#end'' ! k) (Suc k) st
           = Inl (ParseError ''Line 2: unexpected #end'') \<and>
         carries_line (ParseError ''Line 2: unexpected #end'') (Suc k)"
    by simp
  have r: "run_lines ''#s1 A\<newline>#thm T\<newline>text''
       = Inr \<lparr>heap = [Node [1] (Document Map.empty), Node [2] (Section 1 ''A''),
                       Node [3] (Theorem ''T''), Node [] (Paragraph ''text'')],
               stack = [0, 1, 2]\<rparr>"
    by (simp add: eval_defs)
  have m: "2 \<in> set (tl [0, 1, 2 :: nat])"
    and t: "is_Theorem (variant ([Node [1] (Document Map.empty), Node [2] (Section 1 ''A''),
                       Node [3] (Theorem ''T''), Node [] (Paragraph ''text'')] ! 2))"
    by simp_all
  from parse_error_line_number [of "''#s1 A\<newline>#thm T\<newline>text''",
      THEN conjunct2, THEN conjunct2, rule_format,
      of "\<lparr>heap = [Node [1] (Document Map.empty), Node [2] (Section 1 ''A''),
                       Node [3] (Theorem ''T''), Node [] (Paragraph ''text'')],
               stack = [0, 1, 2]\<rparr>"] r m t
  have u: "parse_blocks ''#s1 A\<newline>#thm T\<newline>text''
       = Inl (ParseError ''Unclosed block at end of file'')"
    by auto
  from p a r m t u show ?thesis by (intro conjI)
qed


subsection \<open>The Section directive\<close>

text \<open>
  The Section directive with a decimal level of at most 4300 digits, in a state that the
  parser reaches.  The stack is cut to its first \<open>k\<close> elements, \<open>k\<close> at least 1, so the
  Document stays; every element removed is a Section of at least the new level; no Section
  of at least the new level is left above the nearest remaining node that is not a
  Section; the new Section, with the value of the digits as level and the argument as
  title, becomes the last child of the remaining top and the new top.
\<close>

lemma section_directive_decimal:
  assumes reach: "parse_lines n lines init_state = Inr st"
    and line: "startswith line ''#''" "cmd_of (split1 line) = CHR ''s'' # ds" "ds \<noteq> []"
      "list_all is_ascii_digit ds" "length ds \<le> max_str_digits"
  shows "\<exists>k. 1 \<le> k \<and> k \<le> length (stack st) \<and>
     (\<forall>a\<in>set (drop k (stack st)).
         is_Section (variant (heap st ! a)) \<and> decimal ds \<le> level (variant (heap st ! a))) \<and>
     (\<forall>j<k. (\<forall>m. j \<le> m \<and> m < k \<longrightarrow> is_Section (variant (heap st ! (stack st ! m)))) \<longrightarrow>
         level (variant (heap st ! (stack st ! j))) < decimal ds) \<and>
     handle_command line lineno st =
       Inr \<lparr>heap = (heap st @ [Node [] (Section (decimal ds) (arg_of (split1 line)))])
                     [stack st ! (k - 1) :=
                        Node (children (heap st ! (stack st ! (k - 1))) @ [length (heap st)])
                             (variant (heap st ! (stack st ! (k - 1))))],
             stack = take k (stack st) @ [length (heap st)]\<rparr>"
proof -
  let ?lv = "decimal ds"
  from reach have ok: "stack_ok st" using stack_ok_init by (rule parse_lines_stack_ok)
  from reach have "sections_ordered (heap st) (stack st)"
    using stack_ok_init init_invariants(3) by (rule parse_lines_sections_ordered)
  then have runs: "level_ordered_runs (heap st) (stack st)" by (rule sections_ordered_runs)
  from ok have ne: "stack st \<noteq> []" by (rule stack_ok_top(1))
  from pop_sections_take [OF ne, of "heap st" ?lv] obtain k where
    k: "1 \<le> k" "k \<le> length (stack st)"
       "pop_sections (heap st) ?lv (stack st) = take k (stack st)"
       "\<forall>a\<in>set (drop k (stack st)).
          is_Section (variant (heap st ! a)) \<and> ?lv \<le> level (variant (heap st ! a))"
       "k = 1 \<or> \<not> (is_Section (variant (heap st ! (stack st ! (k - 1)))) \<and>
                     ?lv \<le> level (variant (heap st ! (stack st ! (k - 1)))))"
    by blast
  let ?top = "stack st ! (k - 1)"
  from k(1,2) ne have lt: "last (take k (stack st)) = ?top"
    by (auto simp: last_conv_nth min_def)
  from k(1,2) ok have top: "?top < length (heap st)" by (simp add: stack_ok_def)
  have below: "level (variant (heap st ! (stack st ! j))) < ?lv"
    if j: "j < k" and secs: "\<forall>m. j \<le> m \<and> m < k \<longrightarrow> is_Section (variant (heap st ! (stack st ! m)))"
    for j
  proof -
    from j secs have s: "is_Section (variant (heap st ! ?top))" by simp
    have "k \<noteq> 1"
    proof
      assume "k = 1"
      with ok ne have "?top = doc" by (simp add: stack_ok_def hd_conv_nth)
      with stack_ok_top(4) [OF ok] s show False
        by (cases "variant (heap st ! doc)") simp_all
    qed
    with k(5) s have t: "level (variant (heap st ! ?top)) < ?lv" by auto
    show ?thesis
    proof (cases "j = k - 1")
      case True
      with t show ?thesis by simp
    next
      case False
      with j have jk: "j < k - 1" by simp
      from k(2) j have "k - 1 < length (stack st)" by simp
      moreover from secs
      have "\<forall>m. j \<le> m \<and> m \<le> k - 1 \<longrightarrow> is_Section (variant (heap st ! (stack st ! m)))"
        using j by auto
      ultimately have "level (variant (heap st ! (stack st ! j))) < level (variant (heap st ! ?top))"
        using runs jk unfolding level_ordered_runs_def by blast
      with t show ?thesis by simp
    qed
  qed
  have "handle_command line lineno st =
       Inr \<lparr>heap = (heap st @ [Node [] (Section ?lv (arg_of (split1 line)))])
                     [?top := Node (children (heap st ! ?top) @ [length (heap st)])
                                   (variant (heap st ! ?top))],
             stack = take k (stack st) @ [length (heap st)]\<rparr>"
    unfolding handle_command_section [OF line ne] k(3)
    using top by (simp add: open_node_def Let_def lt append_child_def nth_append)
  with k(1,2,4) below show ?thesis by blast
qed

lemma section_directive_decimal_example:
  "parse_lines 1 [''#s1 a'', ''#s2 b''] init_state
     = Inr \<lparr>heap = [Node [1] (Document Map.empty), Node [2] (Section 1 ''a''),
                     Node [] (Section 2 ''b'')], stack = [0, 1, 2]\<rparr>
   \<and> handle_command ''#s1 c'' 3
        \<lparr>heap = [Node [1] (Document Map.empty), Node [2] (Section 1 ''a''),
                 Node [] (Section 2 ''b'')], stack = [0, 1, 2]\<rparr>
     = Inr \<lparr>heap = [Node [1, 3] (Document Map.empty), Node [2] (Section 1 ''a''),
                     Node [] (Section 2 ''b''), Node [] (Section 1 ''c'')], stack = [0, 3]\<rparr>"
  by (simp add: eval_defs)

text \<open>
  Claim C1.  A directive whose command word is \<^verbatim>\<open>s\<close> followed by digits pops the Sections
  of at least the new level and opens a new Section with the parsed level.  The code takes
  the command word for such a directive when \<^verbatim>\<open>cmd[1:].isdigit()\<close> holds, which is true of
  the superscript two (U+00B2) as well; \<^verbatim>\<open>int\<close> does not read that character, so the
  directive \<^verbatim>\<open>#s\<close> followed by U+00B2 ends the parse with a \<^verbatim>\<open>ValueError\<close>: no Section is
  opened and no \<^verbatim>\<open>ParseError\<close> is raised.  (For up to 4300 decimal digits the claim
  holds: lemma \<open>section_directive_decimal\<close>.  More digits end in a \<^verbatim>\<open>ValueError\<close> too:
  lemma \<open>handle_command_section_too_long\<close>.)
\<close>

theorem section_directive_superscript:
  "startswith (''s'' @ [CHR 0xB2]) ''s'' \<and> isdigit (drop 1 (''s'' @ [CHR 0xB2]))
   \<and> handle_command (''#s'' @ [CHR 0xB2]) 1 init_state = Inl ValueError
   \<and> parse_blocks (''#s'' @ [CHR 0xB2]) = Inl ValueError"
  by (simp add: eval_defs)


subsection \<open>The tree that a call returns\<close>

lemma parse_line_children_above:
  assumes "parse_line raw n st = Inr st'" "stack_ok st" "children_above (heap st)"
  shows "children_above (heap st')"
  unfolding children_above_def
proof (intro allI impI ballI)
  fix a c
  assume a: "a < length (heap st')" and c: "c \<in> set (children (heap st' ! a))"
  from parse_line_heap [OF assms(1)] have le: "length (heap st) \<le> length (heap st')"
    by (rule conjunct1)
  have old: "a < c \<and> c < length (heap st')"
    if "a < length (heap st)" "c \<in> set (children (heap st ! a))"
  proof -
    from assms(3) that have "a < c \<and> c < length (heap st)"
      unfolding children_above_def by blast
    with le show ?thesis by simp
  qed
  from parse_line_children [OF assms(1,2) a]
  show "a < c \<and> c < length (heap st')"
  proof
    assume e: "children (heap st' ! a) = (if a < length (heap st) then children (heap st ! a) else [])"
    show ?thesis
    proof (cases "a < length (heap st)")
      case True
      with e c show ?thesis by (intro old) simp_all
    next
      case False
      with e c show ?thesis by simp
    qed
  next
    assume new: "a < length (heap st) \<and>
          children (heap st' ! a) = children (heap st ! a) @ [length (heap st)] \<and>
          length (heap st') = Suc (length (heap st)) \<and>
          (is_Paragraph (variant (heap st' ! length (heap st)))
             \<longrightarrow> \<not> is_ListBlock (variant (heap st ! a)))"
    then have n: "a < length (heap st)"
      "children (heap st' ! a) = children (heap st ! a) @ [length (heap st)]"
      "length (heap st') = Suc (length (heap st))"
      by blast+
    from c n(2) have "c \<in> set (children (heap st ! a)) \<or> c = length (heap st)" by auto
    then show ?thesis
    proof
      assume "c \<in> set (children (heap st ! a))"
      with n(1) show ?thesis by (rule old)
    next
      assume "c = length (heap st)"
      with n show ?thesis by simp
    qed
  qed
qed

lemma parse_lines_children_above:
  "parse_lines n ls st = Inr st' \<Longrightarrow> stack_ok st \<Longrightarrow> children_above (heap st)
   \<Longrightarrow> children_above (heap st')"
proof (induction ls arbitrary: n st)
  case Nil
  then show ?case by simp
next
  case (Cons raw ls)
  then show ?case
    by (auto split: sum.splits dest: parse_line_children_above parse_line_stack_ok)
qed

text \<open>In a heap that the parser returns, the tree behind a reference has a subtree for every
  child.\<close>

lemma tree_of_parsed:
  assumes "parse_blocks source = Inr (h, r)" "a < length h"
  shows "tree_of h a = Tree (map (tree_of h) (children (h ! a))) (variant (h ! a))"
proof -
  from assms(1) obtain st where st: "run_lines source = Inr st" "h = heap st"
    by (auto simp: parse_blocks_unfold split: sum.splits if_splits)
  have c0: "children_above (heap init_state)"
    by (simp add: children_above_def init_state_unfold)
  from st(1) have "children_above (heap st)"
    unfolding run_lines_def using stack_ok_init c0 by (rule parse_lines_children_above)
  with st(2) assms(2) have "\<forall>c\<in>set (children (h ! a)). a < c \<and> c < length h"
    unfolding children_above_def by blast
  then have f: "filter (\<lambda>c. a < c \<and> c < length h) (children (h ! a)) = children (h ! a)"
    by (simp only: filter_id_conv)
  have "tree_of h a =
     Tree (map (tree_of h) (filter (\<lambda>c. a < c \<and> c < length h) (children (h ! a))))
          (variant (h ! a))"
    by (rule tree_of.simps)
  then show ?thesis by (simp only: f)
qed

text \<open>
  Claim C9.  Two calls of \<^verbatim>\<open>parse_blocks\<close> on the same string, whatever objects \<open>h1\<close> and
  \<open>h2\<close> were allocated before each of them, give structurally equal results: the same
  error, or two Documents, at addresses that may differ, behind which the trees are equal.
\<close>

theorem parse_deterministic:
  "result_tree (parse_blocks_in h1 source) = result_tree (parse_blocks_in h2 source)"
proof -
  have "result_tree (parse_blocks_in h0 source) = result_tree (parse_blocks source)" for h0
  proof (cases "parse_blocks source")
    case (Inl e)
    then show ?thesis by (simp add: relocate_parse_blocks result_tree_def)
  next
    case (Inr p)
    obtain h r where p: "p = (h, r)" by (cases p)
    with Inr obtain st where st: "run_lines source = Inr st" "h = heap st" "r = doc"
      by (auto simp: parse_blocks_unfold split: sum.splits if_splits)
    from st(1) have "stack_ok st"
      unfolding run_lines_def using stack_ok_init by (rule parse_lines_stack_ok)
    with st have "r < length h" by (simp add: stack_ok_top(3))
    with Inr p show ?thesis
      by (simp add: relocate_parse_blocks result_tree_def tree_of_relocate)
  qed
  from this [of h1] this [of h2] show ?thesis by simp
qed

theorem parse_deterministic_witness:
  "parse_blocks_in [Node [] (Paragraph ''old'')] ''#s1 A\<newline>text''
     = Inr ([Node [] (Paragraph ''old''), Node [2] (Document Map.empty),
             Node [3] (Section 1 ''A''), Node [] (Paragraph ''text'')], 1)
   \<and> parse_blocks_in [] ''#s1 A\<newline>text''
     = Inr ([Node [1] (Document Map.empty), Node [2] (Section 1 ''A''),
             Node [] (Paragraph ''text'')], 0)
   \<and> result_tree (parse_blocks_in [Node [] (Paragraph ''old'')] ''#s1 A\<newline>text'')
     = Inr (Tree [Tree [Tree [] (Paragraph ''text'')] (Section 1 ''A'')] (Document Map.empty))
   \<and> result_tree (parse_blocks_in [] ''#s1 A\<newline>text'')
     = Inr (Tree [Tree [Tree [] (Paragraph ''text'')] (Section 1 ''A'')] (Document Map.empty))"
proof -
  have a: "parse_blocks_in [Node [] (Paragraph ''old'')] ''#s1 A\<newline>text''
     = Inr ([Node [] (Paragraph ''old''), Node [2] (Document Map.empty),
             Node [3] (Section 1 ''A''), Node [] (Paragraph ''text'')], 1)"
    by (simp add: parse_blocks_in_def init_state_in_def eval_defs)
  have b: "parse_blocks_in [] ''#s1 A\<newline>text''
     = Inr ([Node [1] (Document Map.empty), Node [2] (Section 1 ''A''),
             Node [] (Paragraph ''text'')], 0)"
    by (simp add: parse_blocks_in_def init_state_in_def eval_defs)
  have c: "result_tree (parse_blocks_in [] ''#s1 A\<newline>text'')
     = Inr (Tree [Tree [Tree [] (Paragraph ''text'')] (Section 1 ''A'')] (Document Map.empty))"
    unfolding b by (simp add: result_tree_def tree_of.simps)
  from parse_deterministic [of "[Node [] (Paragraph ''old'')]" "''#s1 A\<newline>text''" "[]"] c
  have "result_tree (parse_blocks_in [Node [] (Paragraph ''old'')] ''#s1 A\<newline>text'')
     = Inr (Tree [Tree [Tree [] (Paragraph ''text'')] (Section 1 ''A'')] (Document Map.empty))"
    by simp
  with a b c show ?thesis by blast
qed

end
